theory Spec2Isabelle
  imports Complex_Main "HOL-Library.Word" "HOL-Library.AList" "HOL-Library.Sublist" "HOL-Library.Multiset"
    "HOL-Library.Char_ord" "HOL-Library.List_Lexorder"
begin

section \<open>Errors\<close>

text \<open>
  Every exception the modelled Python can raise is a value. \<open>DecodeError\<close> stands for the
  \<open>cv2.error\<close> raised when \<open>cv2.resize\<close> is handed the \<open>None\<close> of a failed
  \<open>cv2.imread\<close>; \<open>NotFoundError\<close> for \<open>FileNotFoundError\<close>.
\<close>

datatype error = NotFoundError | IOError | DecodeError | CopyError | ValueError
  | IndexError | ZeroDivisionError

section \<open>Images\<close>

text \<open>
  A numpy array of shape (height, width, channels) is a list of rows, each a list of pixels,
  each a list of channel values. \<open>cv2.imread\<close> yields \<open>uint8\<close> values (8-bit words);
  float arrays are modelled with exact rationals.
\<close>

type_synonym 'a image = "'a list list list"

definition shape :: "'a image \<Rightarrow> nat \<times> nat \<times> nat" where
  "shape a = (case a of [] \<Rightarrow> (0, 0, 0)
     | r # _ \<Rightarrow> (case r of [] \<Rightarrow> (length a, 0, 0)
         | p # _ \<Rightarrow> (length a, length r, length p)))"

definition flat :: "'a image \<Rightarrow> 'a list" where
  "flat a = concat (concat a)"

definition map_image :: "('a \<Rightarrow> 'b) \<Rightarrow> 'a image \<Rightarrow> 'b image" where
  "map_image f a = map (map (map f)) a"

text \<open>\<open>skimage.img_as_float\<close> on a \<open>uint8\<close> array: every value is divided by 255.\<close>

definition img_as_float :: "8 word image \<Rightarrow> rat image" where
  "img_as_float a = map_image (\<lambda>v. of_nat (unat v) / 255) a"

text \<open>
  The interpolation weights of the two resize routines (the Gaussian pre-filter and
  spline interpolation of \<open>skimage.transform.resize\<close>, the bilinear kernel of
  \<open>cv2.resize\<close>) belong to the libraries. They enter the model as a parameter giving
  the resampled value at output row \<open>i\<close>, column \<open>j\<close>, channel \<open>c\<close>.
\<close>

type_synonym 'a resampler = "'a image \<Rightarrow> nat \<times> nat \<Rightarrow> nat \<Rightarrow> nat \<Rightarrow> nat \<Rightarrow> 'a"

text \<open>
  \<open>skimage.transform.resize(image, output_shape, mode='reflect', anti_aliasing=True)\<close>
  with the defaults \<open>preserve_range=False\<close> and \<open>clip=True\<close>: the image is converted
  to floats in [0, 1], resampled to \<open>output_shape\<close> (channels kept), and the result is
  clipped to the range of the converted input. An array without elements has no minimum:
  \<open>ValueError\<close>.
\<close>

definition resize :: "rat resampler \<Rightarrow> 8 word image \<Rightarrow> nat \<times> nat \<Rightarrow> error + rat image" where
  "resize interp img output_shape =
     (let f = img_as_float img in
      case flat f of
        [] \<Rightarrow> Inl ValueError
      | x # xs \<Rightarrow>
          (let min_val = fold min xs x;
               max_val = fold max xs x;
               channels = snd (snd (shape img))
           in Inr (map (\<lambda>i. map (\<lambda>j. map (\<lambda>c.
                     min max_val (max min_val (interp f output_shape i j c)))
                   [0..<channels]) [0..<snd output_shape]) [0..<fst output_shape])))"

text \<open>preprocessing_utils.preprocess_image\<close>

definition preprocess_image :: "rat resampler \<Rightarrow> 8 word image \<Rightarrow> error + rat image" where
  "preprocess_image interp img =
     (case resize interp img (28, 28) of
        Inl e \<Rightarrow> Inl e
      | Inr preprocessed_image \<Rightarrow> Inr (map_image (\<lambda>v. v / 255) preprocessed_image))"

text \<open>
  \<open>cv2.resize(image, dsize)\<close> with \<open>dsize = (width, height)\<close>: a \<open>uint8\<close> image
  stays \<open>uint8\<close>; an empty source is an error.
\<close>

definition cv2_resize :: "8 word resampler \<Rightarrow> 8 word image \<Rightarrow> nat \<times> nat \<Rightarrow> error + 8 word image" where
  "cv2_resize interp img dsize =
     (case shape img of (h, w, channels) \<Rightarrow>
        if h = 0 \<or> w = 0 \<or> channels = 0 then Inl DecodeError
        else Inr (map (\<lambda>i. map (\<lambda>j. map (\<lambda>c. interp img dsize i j c)
                    [0..<channels]) [0..<fst dsize]) [0..<snd dsize]))"

text \<open>\<open>keras.preprocessing.image.img_to_array\<close>: the same values as floats.\<close>

definition img_to_array :: "8 word image \<Rightarrow> rat image" where
  "img_to_array a = map_image (\<lambda>v. of_nat (unat v)) a"

text \<open>
  \<open>numpy.amax\<close> and \<open>numpy.amin\<close> over all elements of an array; an array without
  elements has neither.
\<close>

definition amax :: "('a :: linorder) image \<Rightarrow> error + 'a" where
  "amax a = (case flat a of [] \<Rightarrow> Inl ValueError | x # xs \<Rightarrow> Inr (fold max xs x))"

definition amin :: "('a :: linorder) image \<Rightarrow> error + 'a" where
  "amin a = (case flat a of [] \<Rightarrow> Inl ValueError | x # xs \<Rightarrow> Inr (fold min xs x))"

subsection \<open>The resampling of skimage, with the filter taps left open\<close>

text \<open>
  What \<open>skimage.transform.resize\<close> does between the conversion to floats and the
  clipping, for \<open>mode='reflect'\<close>, \<open>anti_aliasing=True\<close> and the default linear
  interpolation: along each of the two image axes a Gaussian filter of standard deviation
  \<open>max(0, (n_in / n_out - 1) / 2)\<close>, truncated at four standard deviations, with the
  boundary mode that \<open>scipy.ndimage\<close> calls mirror; then linear interpolation at the
  coordinates \<open>(i + 1/2) * n_in / n_out - 1/2\<close>. The normalised tap of the filter at
  distance \<open>d\<close> for a standard deviation is a parameter; an axis with standard deviation
  zero is not filtered.
\<close>

definition mirror :: "int \<Rightarrow> nat \<Rightarrow> nat" where
  "mirror k n =
     (if n \<le> 1 then 0
      else (let period = 2 * (int n - 1); m = k mod period
            in nat (if m < int n then m else period - m)))"

definition anti_aliasing_sigma :: "nat \<Rightarrow> nat \<Rightarrow> rat" where
  "anti_aliasing_sigma n_in n_out = max 0 ((of_nat n_in / of_nat n_out - 1) / 2)"

definition kernel_radius :: "rat \<Rightarrow> int" where
  "kernel_radius sigma = \<lfloor>4 * sigma + 1 / 2\<rfloor>"

type_synonym gaussian = "rat \<Rightarrow> nat \<Rightarrow> rat"

definition tap :: "gaussian \<Rightarrow> rat \<Rightarrow> int \<Rightarrow> rat" where
  "tap g sigma d = (if sigma \<le> 0 then (if d = 0 then 1 else 0) else g sigma (nat \<bar>d\<bar>))"

definition gaussian_filtered :: "gaussian \<Rightarrow> rat image \<Rightarrow> nat \<times> nat \<Rightarrow> nat \<Rightarrow> nat \<Rightarrow> nat \<Rightarrow> rat" where
  "gaussian_filtered g f out_shape y x c =
     (let h = length f; w = length (hd f);
          sy = anti_aliasing_sigma h (fst out_shape);
          sx = anti_aliasing_sigma w (snd out_shape);
          ry = kernel_radius sy; rx = kernel_radius sx
      in sum_list (map (\<lambda>b. tap g sx b *
           sum_list (map (\<lambda>a. tap g sy a * f ! mirror (int y + a) h ! mirror (int x + b) w ! c)
             [- ry..ry])) [- rx..rx]))"

definition antialiased_linear :: "gaussian \<Rightarrow> rat resampler" where
  "antialiased_linear g f out_shape i j c =
     (let h = length f; w = length (hd f);
          cy = (of_nat i + 1 / 2) * of_nat h / of_nat (fst out_shape) - 1 / 2;
          cx = (of_nat j + 1 / 2) * of_nat w / of_nat (snd out_shape) - 1 / 2;
          y0 = \<lfloor>cy\<rfloor>; x0 = \<lfloor>cx\<rfloor>;
          ty = cy - of_int y0; tx = cx - of_int x0;
          v = (\<lambda>y x. gaussian_filtered g f out_shape (mirror y h) (mirror x w) c)
      in (1 - ty) * ((1 - tx) * v y0 x0 + tx * v y0 (x0 + 1))
         + ty * ((1 - tx) * v (y0 + 1) x0 + tx * v (y0 + 1) (x0 + 1)))"

section \<open>File system\<close>

text \<open>
  A path is its list of components; the file system maps paths to directories and files
  (with their bytes). It is kept as an association list so that globbing can enumerate it.
  In a tree every entry but the root has its parent directory among the entries; then the
  entries strictly below a directory are what a recursive walk from it finds.
\<close>

type_synonym path = "string list"

datatype node = Dir | File "8 word list"

type_synonym filesystem = "(path \<times> node) list"

definition is_file :: "filesystem \<Rightarrow> path \<Rightarrow> bool" where
  "is_file fs p = (case map_of fs p of Some (File _) \<Rightarrow> True | _ \<Rightarrow> False)"

definition is_dir :: "filesystem \<Rightarrow> path \<Rightarrow> bool" where
  "is_dir fs p = (case map_of fs p of Some Dir \<Rightarrow> True | _ \<Rightarrow> False)"

text \<open>
  \<open>Path.glob('**/*')\<close>: everything strictly below the root, and nothing at all (no
  exception) when the root is not a directory.
\<close>

definition glob_rec :: "filesystem \<Rightarrow> path \<Rightarrow> path list" where
  "glob_rec fs base =
     (if is_dir fs base then remdups (filter (strict_prefix base) (map fst fs)) else [])"

text \<open>\<open>Path.glob('*')\<close>: the direct children of the root.\<close>

definition glob_star :: "filesystem \<Rightarrow> path \<Rightarrow> path list" where
  "glob_star fs base =
     (if is_dir fs base
      then remdups (filter (\<lambda>p. prefix base p \<and> length p = Suc (length base)) (map fst fs))
      else [])"

text \<open>\<open>Path.unlink\<close>: removes a file, \<open>FileNotFoundError\<close> when there is none.\<close>

definition unlink :: "filesystem \<Rightarrow> path \<Rightarrow> error + filesystem" where
  "unlink fs p = (if is_file fs p then Inr (AList.delete p fs) else Inl NotFoundError)"

text \<open>
  \<open>cv2.imread\<close>: the decoded image, or \<open>None\<close> when the file is missing or its bytes
  are no image. The codec is a parameter.
\<close>

type_synonym decoder = "8 word list \<Rightarrow> 8 word image option"

definition cv2_imread :: "decoder \<Rightarrow> filesystem \<Rightarrow> path \<Rightarrow> 8 word image option" where
  "cv2_imread dec fs p = (case map_of fs p of Some (File bytes) \<Rightarrow> dec bytes | _ \<Rightarrow> None)"

text \<open>
  Modelled from the spec: \<open>fruit_classifier.utils.file_utils.copytree\<close> is imported by
  preprocessing_utils but its source is not part of the repository files at hand. The spec
  says: recursively mirror the raw tree into the clean directory (directories and files),
  preserving relative structure; \<open>IOError\<close> if the raw root is unreadable;
  \<open>CopyError\<close> if the destination cannot be merged into. The entry point creates the
  clean directory before the call and the test of \<open>copytree\<close> copies twice into the same
  destination, so an existing destination directory is merged into; a destination that is
  a file cannot be.
\<close>

definition copytree :: "path \<Rightarrow> path \<Rightarrow> filesystem \<Rightarrow> error + filesystem" where
  "copytree src dst fs =
     (if \<not> is_dir fs src then Inl IOError
      else if is_file fs dst then Inl CopyError
      else Inr (fold (\<lambda>p acc. case map_of fs p of
                        Some nd \<Rightarrow> AList.update (dst @ drop (length src) p) nd acc
                      | None \<Rightarrow> acc)
                  (glob_rec fs src) (AList.update dst Dir fs)))"

section \<open>Removing files that are not images\<close>

text \<open>
  The loop of preprocessing_utils.remove_non_images over the files of the clean tree: a
  file that \<open>cv2.imread\<close> cannot decode is reported (\<open>Un-linking ...\<close>) and unlinked.
  The paths printed are collected in the last argument.
\<close>

fun unlink_loop ::
  "decoder \<Rightarrow> path list \<Rightarrow> filesystem \<Rightarrow> path list \<Rightarrow> error + (filesystem \<times> path list)" where
  "unlink_loop dec [] fs unlinked = Inr (fs, unlinked)"
| "unlink_loop dec (image_path # image_paths) fs unlinked =
     (case cv2_imread dec fs image_path of
        None \<Rightarrow>
          (case unlink fs image_path of
             Inl e \<Rightarrow> Inl e
           | Inr fs' \<Rightarrow> unlink_loop dec image_paths fs' (unlinked @ [image_path]))
      | Some img \<Rightarrow> unlink_loop dec image_paths fs unlinked)"

text \<open>
  The report printed at the end of remove_non_images: the class directories of both trees
  are paired in sorted order, and for each pair the number of entries remaining in the
  clean one, the number in the raw one, and the clean path are printed.
\<close>

definition cleaning_report :: "path \<Rightarrow> path \<Rightarrow> filesystem \<Rightarrow> (nat \<times> nat \<times> path) list" where
  "cleaning_report raw_dir clean_dir fs =
     (let raw_dirs = filter (is_dir fs) (sort (glob_star fs raw_dir));
          clean_dirs = filter (is_dir fs) (sort (glob_star fs clean_dir))
      in map (\<lambda>(r, c). (length (glob_star fs c), length (glob_star fs r), c))
           (zip raw_dirs clean_dirs))"

text \<open>
  preprocessing_utils.remove_non_images. The result is the file system after the pass, the
  paths unlinked, and the printed report.
\<close>

definition remove_non_images ::
  "decoder \<Rightarrow> path \<Rightarrow> path \<Rightarrow> filesystem
    \<Rightarrow> error + (filesystem \<times> path list \<times> (nat \<times> nat \<times> path) list)" where
  "remove_non_images dec raw_dir clean_dir fs =
     (case copytree raw_dir clean_dir fs of
        Inl e \<Rightarrow> Inl e
      | Inr fs1 \<Rightarrow>
          (let image_paths = sort (glob_rec fs1 clean_dir);
               image_paths = filter (is_file fs1) image_paths
           in case unlink_loop dec image_paths fs1 [] of
                Inl e \<Rightarrow> Inl e
              | Inr (fs2, unlinked) \<Rightarrow>
                  Inr (fs2, unlinked, cleaning_report raw_dir clean_dir fs2)))"

text \<open>
  The two steps of the pass as operations on the lookup function of a file system, for the
  statements below: whether an entry is a file the codec rejects, the table after
  mirroring, and the table after dropping the rejected files below the clean directory.
\<close>

definition undecodable :: "decoder \<Rightarrow> node option \<Rightarrow> bool" where
  "undecodable dec v = (case v of Some (File bytes) \<Rightarrow> dec bytes = None | _ \<Rightarrow> False)"

definition mirrored :: "path \<Rightarrow> path \<Rightarrow> (path \<rightharpoonup> node) \<Rightarrow> (path \<rightharpoonup> node)" where
  "mirrored src dst m p =
     (if strict_prefix dst p \<and> m (src @ drop (length dst) p) \<noteq> None
      then m (src @ drop (length dst) p)
      else if p = dst then Some Dir else m p)"

definition sanitized :: "decoder \<Rightarrow> path \<Rightarrow> (path \<rightharpoonup> node) \<Rightarrow> (path \<rightharpoonup> node)" where
  "sanitized dec dst m p = (if strict_prefix dst p \<and> undecodable dec (m p) then None else m p)"

section \<open>Collecting the image paths\<close>

text \<open>
  Python's \<open>random\<close> module keeps one global generator. Its state is threaded through
  the model; \<open>random.seed(a)\<close> replaces the state by one that depends on \<open>a\<close> only, and
  \<open>randbelow n\<close> draws an index below \<open>n\<close>. Both belong to the library and are
  parameters. \<open>random.shuffle\<close> is the library's loop
  \<^verbatim>\<open>for i in reversed(range(1, len(x))): j = randbelow(i + 1); x[i], x[j] = x[j], x[i]\<close>.
\<close>

fun shuffle_loop :: "(nat \<Rightarrow> 'g \<Rightarrow> nat \<times> 'g) \<Rightarrow> nat \<Rightarrow> 'a list \<Rightarrow> 'g \<Rightarrow> 'a list \<times> 'g" where
  "shuffle_loop randbelow 0 x g = (x, g)"
| "shuffle_loop randbelow (Suc k) x g =
     (case randbelow (Suc k + 1) g of
        (j, g') \<Rightarrow> shuffle_loop randbelow k (x[Suc k := x ! j, j := x ! Suc k]) g')"

definition shuffle :: "(nat \<Rightarrow> 'g \<Rightarrow> nat \<times> 'g) \<Rightarrow> 'a list \<Rightarrow> 'g \<Rightarrow> 'a list \<times> 'g" where
  "shuffle randbelow x g = shuffle_loop randbelow (length x - 1) x g"

text \<open>
  train_utils.get_image_paths. The state of the generator at the call is an argument; the
  function overwrites it with \<open>random.seed(42)\<close>. No branch raises.
\<close>

definition get_image_paths ::
  "(int \<Rightarrow> 'g) \<Rightarrow> (nat \<Rightarrow> 'g \<Rightarrow> nat \<times> 'g) \<Rightarrow> filesystem \<Rightarrow> path \<Rightarrow> 'g
    \<Rightarrow> error + (path list \<times> 'g)" where
  "get_image_paths seed randbelow fs path g =
     (let image_paths = sort (glob_rec fs path);
          image_paths = filter (is_file fs) image_paths;
          g1 = seed 42
      in Inr (shuffle randbelow image_paths g1))"

section \<open>Building the training data\<close>

text \<open>
  The loop of train_utils.get_data_and_labels: each path is read, resized with
  \<open>cv2.resize\<close> to 28 by 28 and converted to a float array; the label is the name of the
  parent directory, \<open>image_path.parts[-2]\<close>. A file that does not decode makes
  \<open>cv2.resize\<close> fail.
\<close>

fun get_data_and_labels_loop ::
  "decoder \<Rightarrow> 8 word resampler \<Rightarrow> filesystem \<Rightarrow> path list \<Rightarrow> rat image list \<Rightarrow> string list
    \<Rightarrow> error + (rat image list \<times> string list)" where
  "get_data_and_labels_loop dec interp fs [] data labels = Inr (data, labels)"
| "get_data_and_labels_loop dec interp fs (image_path # image_paths) data labels =
     (case cv2_imread dec fs image_path of
        None \<Rightarrow> Inl DecodeError
      | Some img \<Rightarrow>
          (case cv2_resize interp img (28, 28) of
             Inl e \<Rightarrow> Inl e
           | Inr img' \<Rightarrow>
               if length image_path < 2 then Inl IndexError
               else get_data_and_labels_loop dec interp fs image_paths
                      (data @ [img_to_array img'])
                      (labels @ [image_path ! (length image_path - 2)])))"

text \<open>After the loop the stacked array is divided by 255.\<close>

definition get_data_and_labels ::
  "decoder \<Rightarrow> 8 word resampler \<Rightarrow> filesystem \<Rightarrow> path list \<Rightarrow> error + (rat image list \<times> string list)" where
  "get_data_and_labels dec interp fs image_paths =
     (case get_data_and_labels_loop dec interp fs image_paths [] [] of
        Inl e \<Rightarrow> Inl e
      | Inr (data, labels) \<Rightarrow> Inr (map (map_image (\<lambda>v. v / 255)) data, labels))"

section \<open>Splitting the data\<close>

text \<open>
  \<open>sklearn.preprocessing.LabelEncoder().fit_transform(labels)\<close>: the classes are the
  distinct labels in sorted order and each label is replaced by the index of its class.
\<close>

fun index_of :: "'a list \<Rightarrow> 'a \<Rightarrow> nat" where
  "index_of [] y = 0"
| "index_of (x # xs) y = (if x = y then 0 else Suc (index_of xs y))"

definition fit_transform :: "string list \<Rightarrow> nat list" where
  "fit_transform labels = map (index_of (sort (remdups labels))) labels"

text \<open>
  \<open>keras.utils.to_categorical(y, num_classes)\<close>: one row per label with a one at the
  label's index; a label outside the row is an \<open>IndexError\<close>.
\<close>

definition to_categorical :: "nat list \<Rightarrow> nat \<Rightarrow> error + rat list list" where
  "to_categorical y num_classes =
     (if list_ex (\<lambda>c. num_classes \<le> c) y then Inl IndexError
      else Inr (map (\<lambda>c. map (\<lambda>k. if k = c then 1 else 0) [0..<num_classes]) y))"

text \<open>
  \<open>sklearn.model_selection.train_test_split(a, b, test_size, random_state)\<close> with a
  float \<open>test_size\<close> and an integer \<open>random_state\<close>: the arrays must have the same
  number of samples; the test set has \<open>ceil(test_size * n)\<close> samples and the training
  set the rest, which must not be empty; the samples are taken in the order of the
  permutation that a fresh \<open>RandomState(random_state)\<close> draws, the test indices first.
  The permutation belongs to the library and is a parameter.
\<close>

definition train_test_split ::
  "(int \<Rightarrow> nat \<Rightarrow> nat list) \<Rightarrow> 'a list \<Rightarrow> 'b list \<Rightarrow> rat \<Rightarrow> int
    \<Rightarrow> error + ('a list \<times> 'a list \<times> 'b list \<times> 'b list)" where
  "train_test_split permutation a b test_size random_state =
     (let n_samples = length a in
      if length b \<noteq> n_samples then Inl ValueError
      else
        (let n_test = nat \<lceil>test_size * of_nat n_samples\<rceil>;
             n_train = n_samples - n_test
         in if n_train = 0 then Inl ValueError
            else
              (let perm = permutation random_state n_samples;
                   ind_test = take n_test perm;
                   ind_train = take n_train (drop n_test perm)
               in if list_ex (\<lambda>i. n_samples \<le> i) (ind_test @ ind_train) then Inl IndexError
                  else Inr (map (nth a) ind_train, map (nth a) ind_test,
                            map (nth b) ind_train, map (nth b) ind_test))))"

text \<open>The arguments of \<open>keras.preprocessing.image.ImageDataGenerator\<close>.\<close>

record image_data_generator =
  rotation_range :: nat
  width_shift_range :: rat
  height_shift_range :: rat
  shear_range :: rat
  zoom_range :: rat
  horizontal_flip :: bool
  fill_mode :: string

text \<open>train_utils.get_model_input\<close>

definition get_model_input ::
  "(int \<Rightarrow> nat \<Rightarrow> nat list) \<Rightarrow> rat image list \<Rightarrow> string list
    \<Rightarrow> error + (rat image list \<times> rat image list \<times> rat list list \<times> rat list list
                 \<times> image_data_generator)" where
  "get_model_input permutation data labels =
     (let encoded_labels = fit_transform labels;
          num_classes = length (remdups labels)
      in case train_test_split permutation data encoded_labels (25 / 100) 42 of
           Inl e \<Rightarrow> Inl e
         | Inr (x_train, x_val, y_train, y_val) \<Rightarrow>
             (case to_categorical y_train num_classes of
                Inl e \<Rightarrow> Inl e
              | Inr y_train' \<Rightarrow>
                  (case to_categorical y_val num_classes of
                     Inl e \<Rightarrow> Inl e
                   | Inr y_val' \<Rightarrow>
                       Inr (x_train, x_val, y_train', y_val',
                            \<lparr>rotation_range = 30, width_shift_range = 1 / 10,
                             height_shift_range = 1 / 10, shear_range = 2 / 10,
                             zoom_range = 2 / 10, horizontal_flip = True,
                             fill_mode = ''nearest''\<rparr>))))"

section \<open>Training\<close>













section \<open>Concrete library stand-ins for evaluation\<close>

text \<open>
  Nearest-neighbour sampling, one admissible instance of the resampling parameter, used
  where a statement is evaluated on concrete data.
\<close>

definition nearest :: "'a resampler" where
  "nearest a out_shape i j c =
     a ! (i * length a div fst out_shape) ! (j * length (hd a) div snd out_shape) ! c"

definition nearest_cv :: "'a resampler" where
  "nearest_cv a dsize i j c =
     a ! (i * length a div snd dsize) ! (j * length (hd a) div fst dsize) ! c"

text \<open>
  A linear congruential generator standing in for the Mersenne Twister of \<open>random\<close>.
\<close>

definition lcg_seed :: "int \<Rightarrow> int" where
  "lcg_seed a = \<bar>a\<bar>"

definition lcg_randbelow :: "nat \<Rightarrow> int \<Rightarrow> nat \<times> int" where
  "lcg_randbelow n g =
     (let g' = (g * 1103515245 + 12345) mod 2147483648 in (nat (g' mod int n), g'))"

text \<open>A permutation standing in for the one \<open>RandomState\<close> draws: a rotation.\<close>

definition rotation_permutation :: "int \<Rightarrow> nat \<Rightarrow> nat list" where
  "rotation_permutation random_state n = rotate (nat \<bar>random_state\<bar>) [0..<n]"


text \<open>A codec for evaluation: a file of three bytes decodes to one pixel, anything else fails.\<close>

definition pixel_decoder :: decoder where
  "pixel_decoder bytes = (if length bytes = 3 then Some [[bytes]] else None)"

subsection \<open>Concrete inputs\<close>

definition test_image :: "8 word image" where
  "test_image =
     [[[0, 10, 255], [7, 7, 7], [200, 100, 50]],
      [[1, 2, 3], [4, 5, 6], [255, 255, 255]]]"

definition grey_pixel :: "8 word image" where
  "grey_pixel = [[[128, 128, 128]]]"

definition grey_path :: path where
  "grey_path = [''cleaned_data'', ''apple'', ''a.png'']"

definition grey_fs :: filesystem where
  "grey_fs = [([''cleaned_data''], Dir), ([''cleaned_data'', ''apple''], Dir),
              (grey_path, File [128, 128, 128])]"

definition raw_fs :: filesystem where
  "raw_fs =
     [([''raw''], Dir),
      ([''raw'', ''apple''], Dir),
      ([''raw'', ''apple'', ''a.png''], File [1, 2, 3]),
      ([''raw'', ''apple'', ''notes.txt''], File [104, 105]),
      ([''raw'', ''banana''], Dir),
      ([''raw'', ''banana'', ''b.png''], File [4, 5, 6])]"

definition nested_fs :: filesystem where
  "nested_fs =
     [([''data''], Dir),
      ([''data'', ''raw''], Dir),
      ([''data'', ''raw'', ''apple''], Dir),
      ([''data'', ''raw'', ''apple'', ''notes.txt''], File [104, 105])]"

definition cleaned_fs :: filesystem where
  "cleaned_fs =
     [([''raw''], Dir),
      ([''raw'', ''apple''], Dir),
      ([''raw'', ''apple'', ''a.png''], File [1, 2, 3]),
      ([''raw'', ''apple'', ''notes.txt''], File [104, 105]),
      ([''raw'', ''banana''], Dir),
      ([''raw'', ''banana'', ''b.png''], File [4, 5, 6]),
      ([''clean''], Dir),
      ([''clean'', ''apple''], Dir),
      ([''clean'', ''apple'', ''a.png''], File [1, 2, 3]),
      ([''clean'', ''banana''], Dir),
      ([''clean'', ''banana'', ''b.png''], File [4, 5, 6])]"

definition sample_data :: "rat image list" where
  "sample_data = [[[[0]]], [[[1 / 255]]], [[[2 / 255]]], [[[3 / 255]]], [[[4 / 255]]]]"

definition sample_labels :: "string list" where
  "sample_labels = [''apple'', ''banana'', ''apple'', ''cherry'', ''banana'']"


text \<open>A checkerboard of black and white pixels, each square one pixel wide.\<close>

definition checkerboard :: "nat \<Rightarrow> 8 word image" where
  "checkerboard n =
     map (\<lambda>y. map (\<lambda>x. replicate 3 (if even (y + x) then 0 else 255)) [0..<n]) [0..<n]"

section \<open>Properties of the preprocessing transform\<close>

lemma fold_min_bounds:
  "\<forall>y\<in>set (x # xs). a \<le> y \<and> y \<le> b \<Longrightarrow> a \<le> fold min xs x \<and> fold min xs x \<le> (b::rat)"
  by (induction xs arbitrary: x) (auto simp: min_def)

lemma fold_max_bounds:
  "\<forall>y\<in>set (x # xs). a \<le> y \<and> y \<le> b \<Longrightarrow> a \<le> fold max xs x \<and> fold max xs x \<le> (b::rat)"
  by (induction xs arbitrary: x) (auto simp: max_def)

lemma set_flat_map_image: "set (flat (map_image f a)) = f ` set (flat a)"
  by (auto simp: flat_def map_image_def)

lemma img_as_float_range: "v \<in> set (flat (img_as_float a)) \<Longrightarrow> 0 \<le> v \<and> v \<le> 1"
proof -
  assume "v \<in> set (flat (img_as_float a))"
  then obtain w :: "8 word" where v: "v = of_nat (unat w) / 255"
    by (auto simp: img_as_float_def set_flat_map_image)
  have "unat w < 256" using unsigned_less [of w] by simp
  then have "unat w \<le> 255" by simp
  then have "(of_nat (unat w) :: rat) \<le> 255" by (metis of_nat_le_iff of_nat_numeral)
  moreover have "(0::rat) \<le> of_nat (unat w)" by (rule of_nat_0_le_iff)
  ultimately show ?thesis unfolding v by (simp add: divide_le_eq)
qed

lemma resize_range:
  assumes "resize interp img s = Inr r" and "v \<in> set (flat r)"
  shows "0 \<le> v \<and> v \<le> 1"
proof -
  obtain x xs where fl: "flat (img_as_float img) = x # xs"
    using assms(1) by (auto simp: resize_def Let_def split: list.splits)
  have rng: "\<forall>y\<in>set (x # xs). 0 \<le> y \<and> y \<le> 1"
    using img_as_float_range [of _ img] fl by metis
  have lo: "0 \<le> fold min xs x" using fold_min_bounds [OF rng] by simp
  have hi: "0 \<le> fold max xs x \<and> fold max xs x \<le> 1" using fold_max_bounds [OF rng] by simp
  from assms(1) fl have r: "r = map (\<lambda>i. map (\<lambda>j. map (\<lambda>c.
                     min (fold max xs x) (max (fold min xs x) (interp (img_as_float img) s i j c)))
                   [0..<snd (snd (shape img))]) [0..<snd s]) [0..<fst s]"
    by (auto simp: resize_def Let_def)
  from assms(2) obtain t where "v = min (fold max xs x) (max (fold min xs x) t)"
    unfolding r flat_def by auto
  with lo hi show ?thesis by (auto simp: min_def max_def)
qed

lemma resize_shape:
  assumes "shape img = (h, w, c)" "0 < h" "0 < w" "0 < c"
  shows "\<exists>r. resize interp img (oh, ow) = Inr r \<and> length r = oh \<and>
     (\<forall>row\<in>set r. length row = ow \<and> (\<forall>px\<in>set row. length px = c))"
proof -
  from assms obtain r0 rs p0 ps v0 vs where img: "img = (( (v0 # vs) # ps) # rs)"
    by (auto simp: shape_def split: list.splits) (metis list.exhaust)
  then have "flat (img_as_float img) \<noteq> []"
    by (simp add: flat_def img_as_float_def map_image_def)
  then obtain x xs where fl: "flat (img_as_float img) = x # xs" by (cases "flat (img_as_float img)") auto
  from assms(1) have c: "snd (snd (shape img)) = c" by simp
  show ?thesis
    by (auto simp: resize_def Let_def fl c)
qed


text \<open>
  Claim C2. For every input image with a positive height and width and three channels,
  \<open>preprocess_image\<close> returns a tensor of shape exactly (28, 28, 3): 28 rows of 28 pixels
  of 3 values, and every value lies in the interval [0, 1].
\<close>

theorem preprocess_image_shape_and_range:
  assumes "shape img = (h, w, 3)" and "0 < h" and "0 < w"
  shows "\<exists>out. preprocess_image interp img = Inr out \<and> shape out = (28, 28, 3) \<and>
           length out = 28 \<and>
           (\<forall>row\<in>set out. length row = 28 \<and> (\<forall>px\<in>set row. length px = 3)) \<and>
           (\<forall>v\<in>set (flat out). 0 \<le> v \<and> v \<le> 1)"
proof -
  from resize_shape [OF assms(1) assms(2) assms(3), of interp 28 28]
  obtain r where r: "resize interp img (28, 28) = Inr r" "length r = 28"
    "\<forall>row\<in>set r. length row = 28 \<and> (\<forall>px\<in>set row. length px = 3)" by auto
  let ?out = "map_image (\<lambda>v. v / 255) r"
  have out: "preprocess_image interp img = Inr ?out" by (simp add: preprocess_image_def r(1))
  have len: "length ?out = 28" by (simp add: map_image_def r(2))
  have rows: "\<forall>row\<in>set ?out. length row = 28 \<and> (\<forall>px\<in>set row. length px = 3)"
    using r(3) by (auto simp: map_image_def)
  have sh: "shape ?out = (28, 28, 3)"
  proof -
    from len obtain r0 rs where o: "?out = r0 # rs" by (cases ?out) auto
    with rows have l0: "length r0 = 28" "\<forall>px\<in>set r0. length px = 3" by auto
    then obtain p0 ps where p: "r0 = p0 # ps" by (cases r0) auto
    with l0 have "length p0 = 3" by auto
    with o p l0 len show ?thesis by (simp add: shape_def)
  qed
  have rng: "\<forall>v\<in>set (flat ?out). 0 \<le> v \<and> v \<le> 1"
  proof
    fix v assume "v \<in> set (flat ?out)"
    then obtain u where u: "u \<in> set (flat r)" "v = u / 255" by (auto simp: set_flat_map_image)
    from resize_range [OF r(1) u(1)] u(2) show "0 \<le> v \<and> v \<le> 1" by simp
  qed
  from out sh len rows rng show ?thesis by blast
qed

text \<open>The theorem applied to a non-square 2 by 3 image.\<close>

theorem preprocess_image_shape_and_range_witness:
  "shape test_image = (2, 3, 3) \<and>
   (\<exists>out. preprocess_image nearest test_image = Inr out \<and> shape out = (28, 28, 3) \<and>
           length out = 28 \<and>
           (\<forall>row\<in>set out. length row = 28 \<and> (\<forall>px\<in>set row. length px = 3)) \<and>
           (\<forall>v\<in>set (flat out). 0 \<le> v \<and> v \<le> 1))"
proof -
  have s: "shape test_image = (2, 3, 3)" by (simp add: shape_def test_image_def)
  from preprocess_image_shape_and_range [OF s, of nearest] s show ?thesis by simp
qed

text \<open>
  Claim C3. On an image of 8-bit pixel values the resize call already yields values in
  [0, 1]; the result of \<open>preprocess_image\<close> is that array divided by 255, so every value
  of it is at most 1/255 and none reaches 1.
\<close>

theorem preprocess_image_at_most_1_255:
  assumes "preprocess_image interp img = Inr out"
  shows "\<exists>r. resize interp img (28, 28) = Inr r \<and> (\<forall>u\<in>set (flat r). 0 \<le> u \<and> u \<le> 1) \<and>
           out = map_image (\<lambda>v. v / 255) r \<and>
           (\<forall>v\<in>set (flat out). v \<le> 1 / 255 \<and> v < 1)"
proof -
  from assms obtain r where r: "resize interp img (28, 28) = Inr r"
    and out: "out = map_image (\<lambda>v. v / 255) r"
    by (auto simp: preprocess_image_def split: sum.splits)
  have rr: "\<forall>u\<in>set (flat r). 0 \<le> u \<and> u \<le> 1" using resize_range [OF r] by blast
  have "\<forall>v\<in>set (flat out). v \<le> 1 / 255 \<and> v < 1"
  proof
    fix v assume "v \<in> set (flat out)"
    then obtain u where u: "u \<in> set (flat r)" "v = u / 255" by (auto simp: out set_flat_map_image)
    with rr have "u \<le> 1" by blast
    with u(2) show "v \<le> 1 / 255 \<and> v < 1" by simp
  qed
  with r out rr show ?thesis by blast
qed

lemma resize_constant_pixel:
  "resize interp [[[a, a, a]]] (oh, ow) =
     Inr (replicate oh (replicate ow ([of_nat (unat a) / 255, of_nat (unat a) / 255, of_nat (unat a) / 255])))"
  by (simp add: resize_def img_as_float_def map_image_def flat_def shape_def Let_def
      map_replicate_const)

lemma preprocess_constant_pixel:
  "preprocess_image interp [[[a, a, a]]] =
     Inr (replicate 28 (replicate 28 ([of_nat (unat a) / 255 / 255, of_nat (unat a) / 255 / 255, of_nat (unat a) / 255 / 255])))"
  by (simp add: preprocess_image_def resize_constant_pixel map_image_def)

lemma map_upt_const: "(\<And>i. i < n \<Longrightarrow> f i = k) \<Longrightarrow> map f [0..<n] = replicate n k"
  by (induction n) (auto simp: replicate_append_same)

lemma get_data_and_labels_grey:
  "get_data_and_labels pixel_decoder cvk grey_fs [grey_path] =
     Inr ([map (\<lambda>i. map (\<lambda>j. [of_nat (unat (cvk grey_pixel (28, 28) i j 0)) / 255,
                               of_nat (unat (cvk grey_pixel (28, 28) i j 1)) / 255,
                               of_nat (unat (cvk grey_pixel (28, 28) i j 2)) / 255])
            [0..<28]) [0..<28]], [''apple''])"
  by (simp add: get_data_and_labels_def cv2_imread_def grey_fs_def grey_path_def pixel_decoder_def
      cv2_resize_def shape_def img_to_array_def map_image_def grey_pixel_def comp_def
      numeral_2_eq_2 del: upt_rec_numeral)

lemma no_byte_matches: "(of_nat n :: rat) / 255 \<noteq> 128 / 65025"
proof
  assume "(of_nat n :: rat) / 255 = 128 / 65025"
  then have "(of_nat n :: rat) * 255 = 128" by simp
  then have "(of_nat (n * 255) :: rat) = of_nat 128" by simp
  then have "n * 255 = 128" by (simp only: of_nat_eq_iff)
  then show False by presburger
qed

text \<open>
  Claim C1 (the transform of get_data_and_labels and the transform of preprocess_image give
  the same tensor for every image) evaluated on a single grey pixel of value 128, stored
  as the only file of class apple. Whatever the interpolation weights, \<open>preprocess_image\<close>
  returns the constant tensor 128/65025: the value is divided by 255 twice. The training
  path returns values of the form k/255 with k a byte, never that tensor; with
  nearest-neighbour sampling it returns the constant tensor 128/255.
\<close>

theorem training_and_prediction_transforms_differ:
  "preprocess_image interp grey_pixel = Inr (replicate 28 (replicate 28 ([128 / 65025, 128 / 65025, 128 / 65025]))) \<and>
   get_data_and_labels pixel_decoder interp_cv grey_fs [grey_path]
     \<noteq> Inr ([replicate 28 (replicate 28 ([128 / 65025, 128 / 65025, 128 / 65025]))], labels) \<and>
   get_data_and_labels pixel_decoder nearest_cv grey_fs [grey_path]
     = Inr ([replicate 28 (replicate 28 ([128 / 255, 128 / 255, 128 / 255]))], [''apple''])"
proof (intro conjI)
  show "preprocess_image interp grey_pixel = Inr (replicate 28 (replicate 28 ([128 / 65025, 128 / 65025, 128 / 65025])))"
    by (simp add: grey_pixel_def preprocess_constant_pixel)
  show "get_data_and_labels pixel_decoder interp_cv grey_fs [grey_path]
     \<noteq> Inr ([replicate 28 (replicate 28 ([128 / 65025, 128 / 65025, 128 / 65025]))], labels)"
  proof
    assume "get_data_and_labels pixel_decoder interp_cv grey_fs [grey_path]
      = Inr ([replicate 28 (replicate 28 ([128 / 65025, 128 / 65025, 128 / 65025]))], labels)"
    then have "map (\<lambda>i. map (\<lambda>j. [of_nat (unat (interp_cv grey_pixel (28, 28) i j 0)) / 255,
                               of_nat (unat (interp_cv grey_pixel (28, 28) i j 1)) / 255,
                               of_nat (unat (interp_cv grey_pixel (28, 28) i j 2)) / 255])
            [0..<28]) [0..<28] = replicate 28 (replicate 28 ([128 / 65025, 128 / 65025, 128 / (65025::rat)]))"
      by (simp add: get_data_and_labels_grey)
    then have "map (\<lambda>i. map (\<lambda>j. [of_nat (unat (interp_cv grey_pixel (28, 28) i j 0)) / 255,
                               of_nat (unat (interp_cv grey_pixel (28, 28) i j 1)) / 255,
                               of_nat (unat (interp_cv grey_pixel (28, 28) i j 2)) / 255])
            [0..<28]) [0..<28] ! 0 ! 0 ! 0 = replicate 28 (replicate 28 ([128 / 65025, 128 / 65025, 128 / (65025::rat)])) ! 0 ! 0 ! 0"
      by (rule arg_cong)
    then have "(of_nat (unat (interp_cv grey_pixel (28, 28) 0 0 0)) :: rat) / 255 = 128 / 65025"
      by simp
    with no_byte_matches show False by blast
  qed
  show "get_data_and_labels pixel_decoder nearest_cv grey_fs [grey_path]
     = Inr ([replicate 28 (replicate 28 ([128 / 255, 128 / 255, 128 / 255]))], [''apple''])"
    unfolding get_data_and_labels_grey nearest_cv_def grey_pixel_def
    by (simp add: map_upt_const del: upt_rec_numeral)
qed

text \<open>The theorem of claim C3 applied to a white pixel, where the bound 1/255 is reached.\<close>

theorem preprocess_image_at_most_1_255_witness:
  "preprocess_image nearest [[[255, 255, 255]]] = Inr (replicate 28 (replicate 28 ([1 / 255, 1 / 255, 1 / 255]))) \<and>
   (\<exists>r. resize nearest [[[255, 255, 255]]] (28, 28) = Inr r \<and> (\<forall>u\<in>set (flat r). 0 \<le> u \<and> u \<le> 1) \<and>
      replicate 28 (replicate 28 ([1 / 255, 1 / 255, 1 / 255])) = map_image (\<lambda>v. v / 255) r \<and>
      (\<forall>v\<in>set (flat (replicate 28 (replicate 28 ([1 / 255, 1 / 255, 1 / 255])))). v \<le> 1 / 255 \<and> v < (1::rat)))"
proof -
  have p: "preprocess_image nearest [[[255, 255, 255]]] = Inr (replicate 28 (replicate 28 ([1 / 255, 1 / 255, 1 / 255])))"
    by (simp add: preprocess_constant_pixel)
  from preprocess_image_at_most_1_255 [OF p] p show ?thesis by simp
qed

section \<open>Properties of the cleaning pass\<close>

lemma in_glob_rec:
  "p \<in> set (glob_rec fs b) \<longleftrightarrow> is_dir fs b \<and> strict_prefix b p \<and> map_of fs p \<noteq> None"
  by (auto simp: glob_rec_def map_of_eq_None_iff)

lemma in_glob_star:
  "p \<in> set (glob_star fs b) \<longleftrightarrow>
     is_dir fs b \<and> prefix b p \<and> length p = Suc (length b) \<and> map_of fs p \<noteq> None"
  by (auto simp: glob_star_def map_of_eq_None_iff)

lemma distinct_glob_rec: "distinct (glob_rec fs b)"
  by (simp add: glob_rec_def)

lemma distinct_glob_star: "distinct (glob_star fs b)"
  by (simp add: glob_star_def)

lemma is_file_cong: "map_of fs p = map_of fs' p \<Longrightarrow> is_file fs p = is_file fs' p"
  by (simp add: is_file_def)

lemma is_dir_cong: "map_of fs p = map_of fs' p \<Longrightarrow> is_dir fs p = is_dir fs' p"
  by (simp add: is_dir_def)

lemma cv2_imread_cong: "map_of fs p = map_of fs' p \<Longrightarrow> cv2_imread dec fs p = cv2_imread dec fs' p"
  by (simp add: cv2_imread_def)

lemma sort_eq_of_set_eq:
  fixes xs ys :: "path list"
  assumes "distinct xs" "distinct ys" "set xs = set ys"
  shows "sort xs = sort ys"
  by (rule sorted_distinct_set_unique) (simp_all add: assms)

lemma sort_glob_rec_cong:
  assumes "map_of fs = map_of fs'"
  shows "sort (glob_rec fs b) = sort (glob_rec fs' b)"
proof (rule sort_eq_of_set_eq)
  show "set (glob_rec fs b) = set (glob_rec fs' b)"
    using assms by (auto simp: in_glob_rec is_dir_def)
qed (simp_all add: distinct_glob_rec)

lemma sort_glob_star_cong:
  assumes "map_of fs = map_of fs'"
  shows "sort (glob_star fs b) = sort (glob_star fs' b)"
proof (rule sort_eq_of_set_eq)
  show "set (glob_star fs b) = set (glob_star fs' b)"
    using assms by (auto simp: in_glob_star is_dir_def)
qed (simp_all add: distinct_glob_star)

lemma length_glob_star_cong:
  assumes "map_of fs = map_of fs'"
  shows "length (glob_star fs b) = length (glob_star fs' b)"
proof -
  have "length (sort (glob_star fs b)) = length (sort (glob_star fs' b))"
    using sort_glob_star_cong [OF assms] by simp
  then show ?thesis by simp
qed

lemma undecodable_iff:
  "undecodable dec (map_of fs p) \<longleftrightarrow> is_file fs p \<and> cv2_imread dec fs p = None"
  by (auto simp: undecodable_def is_file_def cv2_imread_def split: option.splits node.splits)

lemma fold_update_other:
  assumes "\<forall>q\<in>set qs. f q \<noteq> p \<or> g q = None"
  shows "map_of (fold (\<lambda>q acc. case g q of Some nd \<Rightarrow> AList.update (f q) nd acc | None \<Rightarrow> acc) qs acc0) p
           = map_of acc0 p"
  using assms
  by (induction qs rule: rev_induct) (auto simp: update_conv' split: option.splits)

lemma fold_update_hit:
  assumes "inj_on f (set qs)" and "q \<in> set qs" and "g q = Some nd"
  shows "map_of (fold (\<lambda>q acc. case g q of Some nd \<Rightarrow> AList.update (f q) nd acc | None \<Rightarrow> acc) qs acc0) (f q)
           = Some nd"
  using assms
proof (induction qs rule: rev_induct)
  case Nil
  then show ?case by simp
next
  case (snoc x xs)
  show ?case
  proof (cases "f x = f q")
    case True
    with snoc.prems have "x = q" by (auto simp: inj_on_def)
    with snoc.prems show ?thesis by (simp add: update_conv')
  next
    case False
    with snoc.prems have "q \<in> set xs" by auto
    moreover from snoc.prems have "inj_on f (set xs)" by (auto simp: inj_on_def)
    ultimately have "map_of (fold (\<lambda>q acc. case g q of Some nd \<Rightarrow> AList.update (f q) nd acc | None \<Rightarrow> acc) xs acc0) (f q)
           = Some nd" using snoc.IH snoc.prems(3) by blast
    with False show ?thesis by (auto simp: update_conv' split: option.splits)
  qed
qed

lemma copytree_map_of:
  assumes "is_dir fs src" and "\<not> is_file fs dst"
  shows "\<exists>fs'. copytree src dst fs = Inr fs' \<and> map_of fs' = mirrored src dst (map_of fs)"
proof -
  let ?f = "\<lambda>p. dst @ drop (length src) p"
  let ?F = "\<lambda>p acc. case map_of fs p of Some nd \<Rightarrow> AList.update (?f p) nd acc | None \<Rightarrow> acc"
  let ?fs' = "fold ?F (glob_rec fs src) (AList.update dst Dir fs)"
  have c: "copytree src dst fs = Inr ?fs'" using assms by (simp add: copytree_def)
  have inj: "inj_on ?f (set (glob_rec fs src))"
  proof (rule inj_onI)
    fix x y assume "x \<in> set (glob_rec fs src)" "y \<in> set (glob_rec fs src)" "?f x = ?f y"
    then obtain a b where "x = src @ a" "y = src @ b" "drop (length src) x = drop (length src) y"
      by (auto simp: in_glob_rec strict_prefix_def prefix_def)
    then show "x = y" by simp
  qed
  have "map_of ?fs' p = mirrored src dst (map_of fs) p" for p
  proof (cases "strict_prefix dst p \<and> map_of fs (src @ drop (length dst) p) \<noteq> None")
    case True
    then obtain rel where p: "p = dst @ rel" "rel \<noteq> []" by (auto simp: strict_prefix_def prefix_def)
    let ?q = "src @ rel"
    from True p obtain nd where nd: "map_of fs ?q = Some nd" by auto
    have q: "?q \<in> set (glob_rec fs src)"
      using assms(1) p(2) nd by (auto simp: in_glob_rec strict_prefix_def)
    have "map_of ?fs' (?f ?q) = Some nd"
      using fold_update_hit [where f = ?f and g = "map_of fs" and qs = "glob_rec fs src"
          and q = ?q and nd = nd and ?acc0.0 = "AList.update dst Dir fs"] inj q nd by blast
    moreover have "?f ?q = p" using p by simp
    ultimately show ?thesis using True p nd by (simp add: mirrored_def)
  next
    case False
    have "\<forall>q\<in>set (glob_rec fs src). ?f q \<noteq> p \<or> map_of fs q = None"
    proof
      fix q assume q: "q \<in> set (glob_rec fs src)"
      show "?f q \<noteq> p \<or> map_of fs q = None"
      proof (rule ccontr)
        assume "\<not> (?f q \<noteq> p \<or> map_of fs q = None)"
        then have e: "?f q = p" "map_of fs q \<noteq> None" by auto
        from q obtain rel where r: "q = src @ rel" "rel \<noteq> []"
          by (auto simp: in_glob_rec strict_prefix_def prefix_def)
        with e have "p = dst @ rel" by auto
        with r e have "strict_prefix dst p \<and> map_of fs (src @ drop (length dst) p) \<noteq> None"
          by (auto simp: strict_prefix_def)
        with False show False by blast
      qed
    qed
    then have "map_of ?fs' p = map_of (AList.update dst Dir fs) p" by (rule fold_update_other)
    with False show ?thesis by (auto simp: mirrored_def update_conv')
  qed
  then have "map_of ?fs' = mirrored src dst (map_of fs)" by (rule ext)
  with c show ?thesis by blast
qed

lemma copytree_Inr_D:
  "copytree src dst fs = Inr fs' \<Longrightarrow> is_dir fs src \<and> \<not> is_file fs dst"
  by (auto simp: copytree_def split: if_splits)

lemma unlink_loop_char:
  assumes "distinct ps" and "\<forall>p\<in>set ps. is_file fs p"
  shows "\<exists>fs'. unlink_loop dec ps fs out
            = Inr (fs', out @ filter (\<lambda>p. cv2_imread dec fs p = None) ps) \<and>
          map_of fs' = (\<lambda>p. if p \<in> set ps \<and> cv2_imread dec fs p = None then None else map_of fs p)"
  using assms
proof (induction ps arbitrary: fs out)
  case Nil
  then show ?case by simp
next
  case (Cons p ps)
  show ?case
  proof (cases "cv2_imread dec fs p")
    case (Some img)
    from Cons.prems have "distinct ps" "\<forall>p\<in>set ps. is_file fs p" by auto
    from Cons.IH [OF this, of out] obtain fs' where
      l: "unlink_loop dec ps fs out = Inr (fs', out @ filter (\<lambda>p. cv2_imread dec fs p = None) ps)"
      and m: "map_of fs' = (\<lambda>q. if q \<in> set ps \<and> cv2_imread dec fs q = None then None else map_of fs q)"
      by blast
    have "unlink_loop dec (p # ps) fs out
            = Inr (fs', out @ filter (\<lambda>q. cv2_imread dec fs q = None) (p # ps))"
      using Some l by simp
    moreover have "map_of fs' = (\<lambda>q. if q \<in> set (p # ps) \<and> cv2_imread dec fs q = None then None else map_of fs q)"
      unfolding m using Some by (intro ext) auto
    ultimately show ?thesis by blast
  next
    case None
    let ?fs1 = "AList.delete p fs"
    have u: "unlink fs p = Inr ?fs1" using Cons.prems by (simp add: unlink_def)
    have m1: "map_of ?fs1 = (map_of fs)(p := None)" by (rule delete_conv')
    have same: "map_of ?fs1 q = map_of fs q" if "q \<in> set ps" for q
      using that Cons.prems(1) by (auto simp: m1)
    have d: "distinct ps" using Cons.prems by simp
    have f: "\<forall>q\<in>set ps. is_file ?fs1 q"
      using Cons.prems(2) same is_file_cong [of ?fs1 _ fs] by auto
    from Cons.IH [OF d f, of "out @ [p]"] obtain fs' where
      l: "unlink_loop dec ps ?fs1 (out @ [p])
            = Inr (fs', (out @ [p]) @ filter (\<lambda>q. cv2_imread dec ?fs1 q = None) ps)"
      and m: "map_of fs' = (\<lambda>q. if q \<in> set ps \<and> cv2_imread dec ?fs1 q = None then None else map_of ?fs1 q)"
      by blast
    have fl: "filter (\<lambda>q. cv2_imread dec ?fs1 q = None) ps = filter (\<lambda>q. cv2_imread dec fs q = None) ps"
      by (rule filter_cong) (auto simp: cv2_imread_cong [OF same])
    have "unlink_loop dec (p # ps) fs out
            = Inr (fs', out @ filter (\<lambda>q. cv2_imread dec fs q = None) (p # ps))"
      using None u l fl by simp
    moreover have "map_of fs' = (\<lambda>q. if q \<in> set (p # ps) \<and> cv2_imread dec fs q = None then None else map_of fs q)"
    proof (rule ext)
      fix q
      show "map_of fs' q = (if q \<in> set (p # ps) \<and> cv2_imread dec fs q = None then None else map_of fs q)"
      proof (cases "q = p")
        case True
        with None Cons.prems(1) show ?thesis by (simp add: m m1)
      next
        case False
        show ?thesis
        proof (cases "q \<in> set ps")
          case True
          with False show ?thesis by (simp add: m cv2_imread_cong [OF same [OF True]] m1)
        next
          case nin: False
          with False show ?thesis by (simp add: m m1)
        qed
      qed
    qed
    ultimately show ?thesis by blast
  qed
qed

lemma cleaning_report_cong:
  assumes "map_of fs = map_of fs'"
  shows "cleaning_report raw clean fs = cleaning_report raw clean fs'"
proof -
  have d: "is_dir fs = is_dir fs'" using assms by (auto simp: is_dir_def fun_eq_iff)
  have l: "(\<lambda>(r, c). (length (glob_star fs c), length (glob_star fs r), c))
      = (\<lambda>(r, c). (length (glob_star fs' c), length (glob_star fs' r), c))"
    using length_glob_star_cong [OF assms] by (auto simp: fun_eq_iff)
  show ?thesis
    unfolding cleaning_report_def Let_def d l
    by (simp only: sort_glob_star_cong [OF assms])
qed

lemma remove_non_images_char:
  assumes "is_dir fs raw" and "\<not> is_file fs clean"
  shows "\<exists>fs1 u. remove_non_images dec raw clean fs = Inr (fs1, u, cleaning_report raw clean fs1) \<and>
           map_of fs1 = sanitized dec clean (mirrored raw clean (map_of fs)) \<and>
           set u = {p. strict_prefix clean p \<and> undecodable dec (mirrored raw clean (map_of fs) p)}"
proof -
  from copytree_map_of [OF assms] obtain fsc where
    c: "copytree raw clean fs = Inr fsc" and mc: "map_of fsc = mirrored raw clean (map_of fs)"
    by blast
  let ?ps = "filter (is_file fsc) (sort (glob_rec fsc clean))"
  have d: "distinct ?ps" by (simp add: distinct_glob_rec)
  have f: "\<forall>p\<in>set ?ps. is_file fsc p" by simp
  from unlink_loop_char [OF d f, of dec "[]"] obtain fs1 where
    l: "unlink_loop dec ?ps fsc [] = Inr (fs1, filter (\<lambda>p. cv2_imread dec fsc p = None) ?ps)"
    and m1: "map_of fs1 = (\<lambda>p. if p \<in> set ?ps \<and> cv2_imread dec fsc p = None then None else map_of fsc p)"
    by auto
  have dirc: "is_dir fsc clean" by (simp add: is_dir_def mc mirrored_def)
  have key: "p \<in> set ?ps \<and> cv2_imread dec fsc p = None
      \<longleftrightarrow> strict_prefix clean p \<and> undecodable dec (map_of fsc p)" for p
    using dirc by (auto simp: in_glob_rec undecodable_iff is_file_def split: option.splits)
  have r: "remove_non_images dec raw clean fs
      = Inr (fs1, filter (\<lambda>p. cv2_imread dec fsc p = None) ?ps, cleaning_report raw clean fs1)"
    by (simp add: remove_non_images_def c l Let_def)
  have "(\<lambda>p. if p \<in> set ?ps \<and> cv2_imread dec fsc p = None then None else map_of fsc p)
      = (\<lambda>p. if strict_prefix clean p \<and> undecodable dec (map_of fsc p) then None else map_of fsc p)"
    by (simp only: key)
  then have m: "map_of fs1 = sanitized dec clean (mirrored raw clean (map_of fs))"
    unfolding m1 mc by (simp add: sanitized_def fun_eq_iff)
  have u: "set (filter (\<lambda>p. cv2_imread dec fsc p = None) ?ps)
      = {p. strict_prefix clean p \<and> undecodable dec (mirrored raw clean (map_of fs) p)}"
    using key by (auto simp: mc [symmetric])
  from r m u show ?thesis by blast
qed

lemma remove_non_images_Inr_D:
  "remove_non_images dec raw clean fs = Inr res \<Longrightarrow> is_dir fs raw \<and> \<not> is_file fs clean"
  by (auto simp: remove_non_images_def split: sum.splits dest: copytree_Inr_D)

lemma sanitized_mirrored_frame:
  "\<not> prefix dst p \<Longrightarrow> sanitized dec dst (mirrored src dst m) p = m p"
  by (auto simp: sanitized_def mirrored_def strict_prefix_def)

lemma separated:
  assumes "\<not> prefix raw clean" and "\<not> prefix clean raw" and "prefix raw p"
  shows "\<not> prefix clean p"
  using assms prefix_same_cases by blast

text \<open>
  Claim C5, amended. Whenever \<open>remove_non_images\<close> returns, every path it unlinked lies
  strictly below the clean directory and every entry outside the clean directory is
  unchanged. When neither directory is equal to or inside the other, every file and
  directory under the raw directory is therefore unchanged after the pass.
\<close>

theorem remove_non_images_frame:
  assumes "remove_non_images dec raw_dir clean_dir fs = Inr (fs', unlinked, report)"
  shows "(\<forall>p\<in>set unlinked. strict_prefix clean_dir p) \<and>
         (\<forall>p. \<not> prefix clean_dir p \<longrightarrow> map_of fs' p = map_of fs p) \<and>
         (\<not> prefix raw_dir clean_dir \<and> \<not> prefix clean_dir raw_dir \<longrightarrow>
            (\<forall>p. prefix raw_dir p \<longrightarrow> map_of fs' p = map_of fs p))"
proof -
  from remove_non_images_Inr_D [OF assms] have pre: "is_dir fs raw_dir" "\<not> is_file fs clean_dir"
    by auto
  from remove_non_images_char [OF pre, of dec] assms
  have m: "map_of fs' = sanitized dec clean_dir (mirrored raw_dir clean_dir (map_of fs))"
    and u: "set unlinked = {p. strict_prefix clean_dir p \<and>
       undecodable dec (mirrored raw_dir clean_dir (map_of fs) p)}"
    by auto
  have a: "\<forall>p\<in>set unlinked. strict_prefix clean_dir p" using u by blast
  have b: "\<forall>p. \<not> prefix clean_dir p \<longrightarrow> map_of fs' p = map_of fs p"
    by (simp add: m sanitized_mirrored_frame)
  have c: "\<not> prefix raw_dir clean_dir \<and> \<not> prefix clean_dir raw_dir \<longrightarrow>
            (\<forall>p. prefix raw_dir p \<longrightarrow> map_of fs' p = map_of fs p)"
    using b separated by blast
  from a b c show ?thesis by blast
qed

lemma sanitize_mirror_raw:
  assumes "\<not> prefix raw clean" and "\<not> prefix clean raw"
  shows "sanitized dec clean (mirrored raw clean m) (raw @ rel) = m (raw @ rel)"
  by (rule sanitized_mirrored_frame) (rule separated [OF assms], simp)

lemma mirrored_again:
  assumes "\<not> prefix raw clean" and "\<not> prefix clean raw"
  shows "mirrored raw clean (sanitized dec clean (mirrored raw clean m)) p
           = (if strict_prefix clean p \<and> m (raw @ drop (length clean) p) \<noteq> None
              then m (raw @ drop (length clean) p)
              else sanitized dec clean (mirrored raw clean m) p)"
proof (cases "p = clean")
  case True
  then show ?thesis by (simp add: mirrored_def sanitized_def)
next
  case False
  then show ?thesis
    unfolding mirrored_def [of raw clean "sanitized dec clean (mirrored raw clean m)"]
    by (auto simp: sanitize_mirror_raw [OF assms])
qed

lemma sanitize_mirror_idem:
  assumes "\<not> prefix raw clean" and "\<not> prefix clean raw"
  shows "sanitized dec clean (mirrored raw clean (sanitized dec clean (mirrored raw clean m)))
           = sanitized dec clean (mirrored raw clean m)"
proof (rule ext)
  fix p
  let ?m1 = "sanitized dec clean (mirrored raw clean m)"
  show "sanitized dec clean (mirrored raw clean ?m1) p = ?m1 p"
  proof (cases "strict_prefix clean p \<and> m (raw @ drop (length clean) p) \<noteq> None")
    case True
    then have "mirrored raw clean ?m1 p = mirrored raw clean m p"
      by (simp add: mirrored_again [OF assms]) (simp add: mirrored_def)
    then show ?thesis by (simp add: sanitized_def [of dec clean "mirrored raw clean ?m1"] sanitized_def [of dec clean "mirrored raw clean m"])
  next
    case False
    then have e: "mirrored raw clean ?m1 p = ?m1 p"
      using mirrored_again [OF assms, of dec m p] by auto
    have "\<not> (strict_prefix clean p \<and> undecodable dec (?m1 p))"
      by (auto simp: sanitized_def undecodable_def)
    then show ?thesis
      unfolding sanitized_def [of dec clean "mirrored raw clean ?m1"] e by auto
  qed
qed

lemma second_run_unlinked:
  assumes "\<not> prefix raw clean" and "\<not> prefix clean raw"
  shows "{p. strict_prefix clean p \<and>
            undecodable dec (mirrored raw clean (sanitized dec clean (mirrored raw clean m)) p)}
         = {clean @ rel | rel. rel \<noteq> [] \<and> undecodable dec (m (raw @ rel))}"
    (is "?L = ?R")
proof (rule set_eqI)
  fix p
  let ?m1 = "sanitized dec clean (mirrored raw clean m)"
  have nb: "\<not> (strict_prefix clean p \<and> undecodable dec (?m1 p))"
    by (auto simp: sanitized_def undecodable_def)
  show "p \<in> ?L \<longleftrightarrow> p \<in> ?R"
  proof
    assume "p \<in> ?L"
    then have sp: "strict_prefix clean p" and un: "undecodable dec (mirrored raw clean ?m1 p)" by auto
    from sp obtain rel where rel: "p = clean @ rel" "rel \<noteq> []"
      by (auto simp: strict_prefix_def prefix_def)
    from un nb sp have "undecodable dec (m (raw @ drop (length clean) p))"
      by (auto simp: mirrored_again [OF assms] split: if_splits)
    with rel show "p \<in> ?R" by auto
  next
    assume "p \<in> ?R"
    then obtain rel where rel: "p = clean @ rel" "rel \<noteq> []" "undecodable dec (m (raw @ rel))" by auto
    then have "m (raw @ rel) \<noteq> None" by (auto simp: undecodable_def split: option.splits)
    moreover from rel have "strict_prefix clean p" "drop (length clean) p = rel"
      by (auto simp: strict_prefix_def)
    ultimately have "mirrored raw clean ?m1 p = m (raw @ rel)"
      by (simp add: mirrored_again [OF assms])
    with rel \<open>strict_prefix clean p\<close> show "p \<in> ?L" by simp
  qed
qed


text \<open>
  Claim C6, amended. For a raw directory and a clean directory that is no file, neither
  equal to or inside the other, running \<open>remove_non_images\<close> twice does not fail, and
  the second run leaves the file system, the files of the clean tree and the report as
  the first run left them. The second run mirrors the raw tree again, so it unlinks again
  exactly the copies of the raw files that do not decode; it unlinks nothing when every
  file under the raw directory decodes.
\<close>

theorem remove_non_images_twice:
  assumes "\<not> prefix raw_dir clean_dir" and "\<not> prefix clean_dir raw_dir"
    and "is_dir fs raw_dir" and "\<not> is_file fs clean_dir"
  shows "\<exists>fs1 u1 r1 fs2 u2.
           remove_non_images dec raw_dir clean_dir fs = Inr (fs1, u1, r1) \<and>
           remove_non_images dec raw_dir clean_dir fs1 = Inr (fs2, u2, r1) \<and>
           map_of fs2 = map_of fs1 \<and>
           filter (is_file fs2) (sort (glob_rec fs2 clean_dir))
             = filter (is_file fs1) (sort (glob_rec fs1 clean_dir)) \<and>
           set u2 = {clean_dir @ rel | rel. rel \<noteq> [] \<and> is_file fs (raw_dir @ rel) \<and>
                       cv2_imread dec fs (raw_dir @ rel) = None} \<and>
           ((\<forall>q. strict_prefix raw_dir q \<and> is_file fs q \<longrightarrow> cv2_imread dec fs q \<noteq> None)
              \<longrightarrow> u2 = [])"
proof -
  note sep = assms(1) assms(2)
  let ?m = "map_of fs"
  let ?m1 = "sanitized dec clean_dir (mirrored raw_dir clean_dir ?m)"
  from remove_non_images_char [OF assms(3) assms(4), of dec] obtain fs1 u1 where
    r1: "remove_non_images dec raw_dir clean_dir fs = Inr (fs1, u1, cleaning_report raw_dir clean_dir fs1)"
    and m1: "map_of fs1 = ?m1"
    by blast
  have "map_of fs1 raw_dir = ?m raw_dir"
    using sanitize_mirror_raw [OF sep, of dec ?m "[]"] by (simp add: m1)
  then have d1: "is_dir fs1 raw_dir" using assms(3) by (simp add: is_dir_def)
  have "map_of fs1 clean_dir = Some Dir" by (simp add: m1 sanitized_def mirrored_def)
  then have f1: "\<not> is_file fs1 clean_dir" by (simp add: is_file_def)
  from remove_non_images_char [OF d1 f1, of dec] obtain fs2 u2 where
    r2: "remove_non_images dec raw_dir clean_dir fs1 = Inr (fs2, u2, cleaning_report raw_dir clean_dir fs2)"
    and m2: "map_of fs2 = sanitized dec clean_dir (mirrored raw_dir clean_dir (map_of fs1))"
    and u2: "set u2 = {p. strict_prefix clean_dir p \<and>
               undecodable dec (mirrored raw_dir clean_dir (map_of fs1) p)}"
    by blast
  have eq: "map_of fs2 = map_of fs1"
    unfolding m2 m1 by (rule sanitize_mirror_idem [OF sep])
  have rep: "cleaning_report raw_dir clean_dir fs2 = cleaning_report raw_dir clean_dir fs1"
    by (rule cleaning_report_cong [OF eq])
  have "is_file fs2 = is_file fs1" using eq by (simp add: is_file_def fun_eq_iff)
  then have files: "filter (is_file fs2) (sort (glob_rec fs2 clean_dir))
             = filter (is_file fs1) (sort (glob_rec fs1 clean_dir))"
    by (simp add: sort_glob_rec_cong [OF eq])
  have su: "set u2 = {clean_dir @ rel | rel. rel \<noteq> [] \<and> is_file fs (raw_dir @ rel) \<and>
                       cv2_imread dec fs (raw_dir @ rel) = None}"
    unfolding u2 m1 second_run_unlinked [OF sep] by (simp add: undecodable_iff)
  have none: "(\<forall>q. strict_prefix raw_dir q \<and> is_file fs q \<longrightarrow> cv2_imread dec fs q \<noteq> None)
              \<longrightarrow> u2 = []"
  proof
    assume a: "\<forall>q. strict_prefix raw_dir q \<and> is_file fs q \<longrightarrow> cv2_imread dec fs q \<noteq> None"
    have "set u2 = {}"
    proof (rule ccontr)
      assume "set u2 \<noteq> {}"
      then obtain rel where "rel \<noteq> []" "is_file fs (raw_dir @ rel)"
        "cv2_imread dec fs (raw_dir @ rel) = None" unfolding su by blast
      moreover have "strict_prefix raw_dir (raw_dir @ rel)" using \<open>rel \<noteq> []\<close> by (simp add: strict_prefix_def)
      ultimately show False using a by blast
    qed
    then show "u2 = []" by simp
  qed
  from r1 r2 [unfolded rep] eq files su none show ?thesis by blast
qed

lemmas fs_eval_defs = remove_non_images_def copytree_def glob_rec_def glob_star_def
  cleaning_report_def is_dir_def is_file_def unlink_def cv2_imread_def pixel_decoder_def

lemma first_run_raw_fs:
  "remove_non_images pixel_decoder [''raw''] [''clean''] raw_fs
     = Inr (cleaned_fs, [[''clean'', ''apple'', ''notes.txt'']],
            [(1, 2, [''clean'', ''apple'']), (1, 1, [''clean'', ''banana''])])"
  by (simp add: fs_eval_defs raw_fs_def cleaned_fs_def)

lemma second_run_raw_fs:
  "remove_non_images pixel_decoder [''raw''] [''clean''] cleaned_fs
     = Inr (cleaned_fs, [[''clean'', ''apple'', ''notes.txt'']],
            [(1, 2, [''clean'', ''apple'']), (1, 1, [''clean'', ''banana''])])"
  by (simp add: fs_eval_defs cleaned_fs_def)

text \<open>The theorem applied to a raw tree with one file that does not decode.\<close>

theorem remove_non_images_frame_witness:
  "remove_non_images pixel_decoder [''raw''] [''clean''] raw_fs
     = Inr (cleaned_fs, [[''clean'', ''apple'', ''notes.txt'']],
            [(1, 2, [''clean'', ''apple'']), (1, 1, [''clean'', ''banana''])]) \<and>
   \<not> prefix [''raw''] [''clean''] \<and> \<not> prefix [''clean''] [''raw''] \<and>
   strict_prefix [''clean''] [''clean'', ''apple'', ''notes.txt''] \<and>
   prefix [''raw''] [''raw'', ''apple'', ''notes.txt''] \<and>
   map_of cleaned_fs [''raw'', ''apple'', ''notes.txt'']
     = map_of raw_fs [''raw'', ''apple'', ''notes.txt'']"
proof -
  have sep: "\<not> prefix [''raw''] [''clean'']" "\<not> prefix [''clean''] [''raw'']" by simp_all
  have p: "prefix [''raw''] [''raw'', ''apple'', ''notes.txt'']" by simp
  from remove_non_images_frame [OF first_run_raw_fs] sep p
  have "strict_prefix [''clean''] [''clean'', ''apple'', ''notes.txt'']"
    and "map_of cleaned_fs [''raw'', ''apple'', ''notes.txt'']
           = map_of raw_fs [''raw'', ''apple'', ''notes.txt'']"
    by simp_all
  with sep p first_run_raw_fs show ?thesis by simp
qed

text \<open>
  Claim C5 as stated (for every raw and clean directory) fails when the raw directory lies
  inside the clean directory: the glob over the clean tree reaches the raw files, and the
  raw file that does not decode is unlinked as well.
\<close>

theorem remove_non_images_unlinks_in_raw:
  "remove_non_images pixel_decoder [''data'', ''raw''] [''data''] nested_fs
     = Inr ([([''data''], Dir), ([''data'', ''raw''], Dir), ([''data'', ''raw'', ''apple''], Dir),
             ([''data'', ''apple''], Dir)],
            [[''data'', ''apple'', ''notes.txt''], [''data'', ''raw'', ''apple'', ''notes.txt'']],
            [(0, 0, [''data'', ''apple''])]) \<and>
   prefix [''data'', ''raw''] [''data'', ''raw'', ''apple'', ''notes.txt''] \<and>
   is_file nested_fs [''data'', ''raw'', ''apple'', ''notes.txt''] \<and>
   \<not> is_file [([''data''], Dir), ([''data'', ''raw''], Dir), ([''data'', ''raw'', ''apple''], Dir),
             ([''data'', ''apple''], Dir)] [''data'', ''raw'', ''apple'', ''notes.txt'']"
  by (simp add: fs_eval_defs nested_fs_def)

text \<open>The theorem applied to a raw tree of two classes.\<close>

theorem remove_non_images_twice_witness:
  "\<not> prefix [''raw''] [''clean''] \<and> \<not> prefix [''clean''] [''raw''] \<and>
   is_dir raw_fs [''raw''] \<and> \<not> is_file raw_fs [''clean''] \<and>
   (\<exists>fs1 u1 r1 fs2 u2.
           remove_non_images pixel_decoder [''raw''] [''clean''] raw_fs = Inr (fs1, u1, r1) \<and>
           remove_non_images pixel_decoder [''raw''] [''clean''] fs1 = Inr (fs2, u2, r1) \<and>
           map_of fs2 = map_of fs1 \<and>
           filter (is_file fs2) (sort (glob_rec fs2 [''clean'']))
             = filter (is_file fs1) (sort (glob_rec fs1 [''clean''])) \<and>
           set u2 = {[''clean''] @ rel | rel. rel \<noteq> [] \<and> is_file raw_fs ([''raw''] @ rel) \<and>
                       cv2_imread pixel_decoder raw_fs ([''raw''] @ rel) = None} \<and>
           ((\<forall>q. strict_prefix [''raw''] q \<and> is_file raw_fs q \<longrightarrow> cv2_imread pixel_decoder raw_fs q \<noteq> None)
              \<longrightarrow> u2 = []))"
proof -
  have h: "\<not> prefix [''raw''] [''clean'']" "\<not> prefix [''clean''] [''raw'']"
    "is_dir raw_fs [''raw'']" "\<not> is_file raw_fs [''clean'']"
    by (simp_all add: is_dir_def is_file_def raw_fs_def)
  from remove_non_images_twice [OF h, of pixel_decoder] h show ?thesis by blast
qed

text \<open>
  Claim C6 as stated (re-running on an already-clean tree deletes nothing) fails: the
  second run on the cleaned tree copies notes.txt again and unlinks it again.
\<close>

theorem remove_non_images_rerun_unlinks_again:
  "remove_non_images pixel_decoder [''raw''] [''clean''] raw_fs
     = Inr (cleaned_fs, [[''clean'', ''apple'', ''notes.txt'']],
            [(1, 2, [''clean'', ''apple'']), (1, 1, [''clean'', ''banana''])]) \<and>
   remove_non_images pixel_decoder [''raw''] [''clean''] cleaned_fs
     = Inr (cleaned_fs, [[''clean'', ''apple'', ''notes.txt'']],
            [(1, 2, [''clean'', ''apple'']), (1, 1, [''clean'', ''banana''])])"
  using first_run_raw_fs second_run_raw_fs by simp

section \<open>Properties of the file collector\<close>

lemma shuffle_loop_mset:
  assumes "\<forall>n g. 0 < n \<longrightarrow> fst (randbelow n g) < n" and "k < length x \<or> k = 0"
  shows "mset (fst (shuffle_loop randbelow k x g)) = mset x"
  using assms(2)
proof (induction k arbitrary: x g)
  case 0
  then show ?case by simp
next
  case (Suc k)
  then have i: "Suc k < length x" by simp
  obtain j g' where r: "randbelow (Suc k + 1) g = (j, g')" by (cases "randbelow (Suc k + 1) g")
  from assms(1) have "fst (randbelow (Suc k + 1) g) < Suc k + 1" by simp
  with r i have j: "j < length x" by simp
  let ?x' = "x[Suc k := x ! j, j := x ! Suc k]"
  have m: "mset ?x' = mset x" using mset_swap [OF j i] by simp
  have "k < length ?x' \<or> k = 0" using i by simp
  from Suc.IH [OF this, of g'] m r show ?case by simp
qed

lemma shuffle_mset:
  assumes "\<forall>n g. 0 < n \<longrightarrow> fst (randbelow n g) < n"
  shows "mset (fst (shuffle randbelow x g)) = mset x"
  unfolding shuffle_def by (rule shuffle_loop_mset [OF assms]) (cases x, auto)

lemma lcg_randbelow_in_range: "\<forall>n g. 0 < n \<longrightarrow> fst (lcg_randbelow n g) < n"
  by (auto simp: lcg_randbelow_def Let_def nat_less_iff)

text \<open>
  Claim C8. Whatever the state of the generator before the call, \<open>get_image_paths\<close>
  returns the same ordering for the same directory contents and ends in the same
  generator state: the result is the shuffle, from the state \<open>random.seed(42)\<close>, of the
  sorted list of files below the root. With a generator that draws indices in range the
  result is a permutation of exactly the files below the root; directories are excluded.
\<close>

theorem get_image_paths_deterministic:
  assumes "\<forall>n g. 0 < n \<longrightarrow> fst (randbelow n g) < n"
  shows "get_image_paths seed randbelow fs path g1 = get_image_paths seed randbelow fs path g2 \<and>
         (\<exists>ps g'. get_image_paths seed randbelow fs path g1 = Inr (ps, g') \<and>
            (ps, g') = shuffle randbelow (filter (is_file fs) (sort (glob_rec fs path))) (seed 42) \<and>
            sorted (filter (is_file fs) (sort (glob_rec fs path))) \<and>
            mset ps = mset (filter (is_file fs) (sort (glob_rec fs path))) \<and>
            distinct ps \<and>
            (\<forall>p\<in>set ps. is_file fs p \<and> strict_prefix path p) \<and>
            (\<forall>p. is_dir fs path \<and> strict_prefix path p \<and> is_file fs p \<longrightarrow> p \<in> set ps))"
proof -
  let ?files = "filter (is_file fs) (sort (glob_rec fs path))"
  obtain ps g' where s: "shuffle randbelow ?files (seed 42) = (ps, g')"
    by (cases "shuffle randbelow ?files (seed 42)")
  have r: "get_image_paths seed randbelow fs path g = Inr (ps, g')" for g
    by (simp add: get_image_paths_def s)
  have m: "mset ps = mset ?files" using shuffle_mset [OF assms, of ?files "seed 42"] s by simp
  have st: "sorted ?files" by (rule sorted_wrt_filter) simp
  have df: "distinct ?files" by (simp add: distinct_glob_rec)
  have d: "distinct ps" using df m by (metis mset_eq_imp_distinct_iff)
  have se: "set ps = set ?files" using m by (metis set_mset_mset)
  have a: "\<forall>p\<in>set ps. is_file fs p \<and> strict_prefix path p"
    unfolding se by (auto simp: in_glob_rec)
  have b: "\<forall>p. is_dir fs path \<and> strict_prefix path p \<and> is_file fs p \<longrightarrow> p \<in> set ps"
    unfolding se by (auto simp: in_glob_rec is_file_def split: option.splits)
  have e: "get_image_paths seed randbelow fs path g1 = get_image_paths seed randbelow fs path g2"
    by (simp only: r)
  have "(ps, g') = shuffle randbelow ?files (seed 42)" by (simp only: s)
  with r [of g1] st m d a b e show ?thesis by (intro conjI exI) assumption+
qed

text \<open>
  The theorem applied to a tree of three files, two generator states and the linear
  congruential generator, which draws in range.
\<close>

theorem get_image_paths_deterministic_witness:
  "get_image_paths lcg_seed lcg_randbelow raw_fs [''raw''] 7
     = get_image_paths lcg_seed lcg_randbelow raw_fs [''raw''] 2024 \<and>
   (\<exists>ps g'. get_image_paths lcg_seed lcg_randbelow raw_fs [''raw''] 7 = Inr (ps, g') \<and>
      (ps, g') = shuffle lcg_randbelow (filter (is_file raw_fs) (sort (glob_rec raw_fs [''raw''])))
                   (lcg_seed 42) \<and>
      sorted (filter (is_file raw_fs) (sort (glob_rec raw_fs [''raw'']))) \<and>
      mset ps = mset (filter (is_file raw_fs) (sort (glob_rec raw_fs [''raw'']))) \<and>
      distinct ps \<and>
      (\<forall>p\<in>set ps. is_file raw_fs p \<and> strict_prefix [''raw''] p) \<and>
      (\<forall>p. is_dir raw_fs [''raw''] \<and> strict_prefix [''raw''] p \<and> is_file raw_fs p \<longrightarrow> p \<in> set ps))"
  using get_image_paths_deterministic [OF lcg_randbelow_in_range, of lcg_seed raw_fs "[''raw'']" 7 2024]
  by blast

text \<open>
  Claim C7, amended. \<open>get_image_paths\<close> raises nothing: when the root is not an existing
  directory the result is the empty sequence, and so it is when the root has no file
  below it.
\<close>

theorem get_image_paths_without_files:
  "(\<not> is_dir fs path \<longrightarrow> get_image_paths seed randbelow fs path g = Inr ([], seed 42)) \<and>
   (filter (is_file fs) (glob_rec fs path) = []
      \<longrightarrow> get_image_paths seed randbelow fs path g = Inr ([], seed 42))"
proof -
  have "filter (is_file fs) (sort (glob_rec fs path)) = []"
    if "\<not> is_dir fs path \<or> filter (is_file fs) (glob_rec fs path) = []"
    using that by (auto simp: filter_empty_conv in_glob_rec)
  then show ?thesis by (simp add: get_image_paths_def shuffle_def)
qed

text \<open>The theorem applied to a missing root and to a root that holds an empty directory.\<close>

theorem get_image_paths_without_files_witness:
  "\<not> is_dir raw_fs [''cleaned_data''] \<and>
   get_image_paths lcg_seed lcg_randbelow raw_fs [''cleaned_data''] 7 = Inr ([], lcg_seed 42) \<and>
   is_dir [([''cleaned_data''], Dir), ([''cleaned_data'', ''apple''], Dir)] [''cleaned_data''] \<and>
   filter (is_file [([''cleaned_data''], Dir), ([''cleaned_data'', ''apple''], Dir)])
     (glob_rec [([''cleaned_data''], Dir), ([''cleaned_data'', ''apple''], Dir)] [''cleaned_data'']) = [] \<and>
   get_image_paths lcg_seed lcg_randbelow
     [([''cleaned_data''], Dir), ([''cleaned_data'', ''apple''], Dir)] [''cleaned_data''] 7
     = Inr ([], lcg_seed 42)"
proof -
  let ?fs = "[([''cleaned_data''], Dir), ([''cleaned_data'', ''apple''], Dir)]"
  have a: "\<not> is_dir raw_fs [''cleaned_data'']" by (simp add: is_dir_def raw_fs_def)
  have c: "is_dir ?fs [''cleaned_data'']" by (simp add: is_dir_def)
  have b: "filter (is_file ?fs) (glob_rec ?fs [''cleaned_data'']) = []"
    by (simp add: glob_rec_def is_dir_def is_file_def)
  from get_image_paths_without_files [of raw_fs "[''cleaned_data'']" lcg_seed lcg_randbelow 7]
    get_image_paths_without_files [of ?fs "[''cleaned_data'']" lcg_seed lcg_randbelow 7]
    a b c show ?thesis by blast
qed

text \<open>
  Claim C7 as stated (NotFoundError when the root does not exist) fails: on a missing
  root the glob enumerates nothing and the empty list is returned.
\<close>

theorem get_image_paths_missing_root_returns:
  "\<not> is_dir raw_fs [''cleaned_data''] \<and>
   get_image_paths lcg_seed lcg_randbelow raw_fs [''cleaned_data''] 7 = Inr ([], 42) \<and>
   get_image_paths lcg_seed lcg_randbelow raw_fs [''cleaned_data''] 7 \<noteq> Inl NotFoundError"
  by (simp add: get_image_paths_def glob_rec_def is_dir_def raw_fs_def shuffle_def lcg_seed_def)

section \<open>Properties of the split\<close>

lemma index_of_less: "y \<in> set xs \<Longrightarrow> index_of xs y < length xs"
  by (induction xs) auto

lemma fit_transform_less:
  "c \<in> set (fit_transform labels) \<Longrightarrow> c < length (remdups labels)"
proof -
  assume "c \<in> set (fit_transform labels)"
  then obtain l where l: "l \<in> set labels" "c = index_of (sort (remdups labels)) l"
    by (auto simp: fit_transform_def)
  then have "l \<in> set (sort (remdups labels))" by simp
  from index_of_less [OF this] l show ?thesis by simp
qed

lemma length_fit_transform: "length (fit_transform labels) = length labels"
  by (simp add: fit_transform_def)

lemma quarter_ceiling: "nat \<lceil>(25 / 100 :: rat) * of_nat n\<rceil> = (n + 3) div 4"
proof -
  have "(25 / 100 :: rat) * of_nat n = of_int (int n) / of_int 4" by simp
  then have "\<lceil>(25 / 100 :: rat) * of_nat n\<rceil> = - (- int n div 4)"
    by (simp only: ceiling_divide_eq_div)
  also have "\<dots> = int ((n + 3) div 4)" by (simp add: zdiv_int)
  finally show ?thesis by simp
qed

lemma quarter_ceiling_div: "nat \<lceil>(of_nat n :: rat) / 4\<rceil> = (n + 3) div 4"
  using quarter_ceiling [of n] by simp

lemma to_categorical_ok:
  assumes "\<forall>c\<in>set y. c < k"
  shows "\<exists>rows. to_categorical y k = Inr rows \<and> length rows = length y"
  using assms by (auto simp: to_categorical_def list_ex_iff)

lemma to_categorical_length:
  "to_categorical y k = Inr rows \<Longrightarrow> length rows = length y"
  by (auto simp: to_categorical_def split: if_splits)

lemma train_test_split_quarter:
  assumes len: "length b = length a" and perm: "mset (permutation 42 (length a)) = mset [0..<length a]"
    and n: "2 \<le> length a"
  shows "train_test_split permutation a b (25 / 100) 42
           = Inr (map (nth a) (drop ((length a + 3) div 4) (permutation 42 (length a))),
                  map (nth a) (take ((length a + 3) div 4) (permutation 42 (length a))),
                  map (nth b) (drop ((length a + 3) div 4) (permutation 42 (length a))),
                  map (nth b) (take ((length a + 3) div 4) (permutation 42 (length a))))"
proof -
  let ?n = "length a"
  let ?p = "permutation 42 ?n"
  let ?t = "(?n + 3) div 4"
  have lp: "length ?p = ?n" using perm by (metis length_upt mset_eq_length minus_nat.diff_0)
  have sp: "set ?p = {0..<?n}" using perm by (metis mset_eq_setD set_upt)
  have t: "?t < ?n" using n by presburger
  have tr: "take (?n - ?t) (drop ?t ?p) = drop ?t ?p" by (simp add: lp)
  have "\<not> list_ex (\<lambda>i. ?n \<le> i) (take ?t ?p)" "\<not> list_ex (\<lambda>i. ?n \<le> i) (drop ?t ?p)"
    using sp by (auto simp: list_ex_iff dest: in_set_takeD in_set_dropD)
  then show ?thesis
    using t len by (simp add: train_test_split_def Let_def quarter_ceiling_div tr)
qed

lemma train_test_split_small:
  assumes "length a < 2"
  shows "\<exists>e. train_test_split permutation a b (25 / 100) 42 = Inl e"
proof -
  have "length a - (length a + 3) div 4 = 0" using assms by presburger
  then show ?thesis by (simp add: train_test_split_def Let_def quarter_ceiling_div)
qed

text \<open>
  Claim C9. For a dataset of n samples with matching labels, \<open>get_model_input\<close> returns a
  split whenever n is at least 2 (with fewer samples the training set would be empty and
  the library raises), and every split it returns satisfies: the sizes of the training
  and the validation part add up to n; the validation part has \<open>ceil(n / 4)\<close> samples,
  that is, 0.25 n rounded up; the labels are split alike. The split is a function of the
  input ordering alone: the validation samples are those at the first \<open>ceil(n / 4)\<close>
  indices of the permutation drawn with the fixed seed 42, the training samples those at
  the remaining indices.
\<close>

theorem get_model_input_split:
  assumes "length labels = length data"
    and "mset (permutation 42 (length data)) = mset [0..<length data]"
  shows "(2 \<le> length data \<longrightarrow> (\<exists>r. get_model_input permutation data labels = Inr r)) \<and>
         (\<forall>x_train x_val y_train y_val gen.
            get_model_input permutation data labels = Inr (x_train, x_val, y_train, y_val, gen) \<longrightarrow>
              length x_train + length x_val = length data \<and>
              length y_train = length x_train \<and> length y_val = length x_val \<and>
              length data \<le> 4 * length x_val \<and> 4 * length x_val < length data + 4 \<and>
              x_val = map (nth data) (take ((length data + 3) div 4) (permutation 42 (length data))) \<and>
              x_train = map (nth data) (drop ((length data + 3) div 4) (permutation 42 (length data))))"
proof (cases "2 \<le> length data")
  case True
  let ?n = "length data"
  let ?p = "permutation 42 ?n"
  let ?t = "(?n + 3) div 4"
  let ?enc = "fit_transform labels"
  let ?k = "length (remdups labels)"
  have le: "length ?enc = ?n" by (simp add: length_fit_transform assms(1))
  have lp: "length ?p = ?n" using assms(2) by (metis length_upt mset_eq_length minus_nat.diff_0)
  have sp: "set ?p = {0..<?n}" using assms(2) by (metis mset_eq_setD set_upt)
  have split: "train_test_split permutation data ?enc (25 / 100) 42
           = Inr (map (nth data) (drop ?t ?p), map (nth data) (take ?t ?p),
                  map (nth ?enc) (drop ?t ?p), map (nth ?enc) (take ?t ?p))"
    using le assms(2) True by (rule train_test_split_quarter)
  have in_enc: "?enc ! i \<in> set ?enc" if "i \<in> set ?p" for i
    using that sp le by simp
  have "\<forall>c\<in>set (map (nth ?enc) (drop ?t ?p)). c < ?k"
    using in_enc fit_transform_less by (auto dest: in_set_dropD)
  from to_categorical_ok [OF this] obtain yt where
    yt: "to_categorical (map (nth ?enc) (drop ?t ?p)) ?k = Inr yt" by blast
  have "\<forall>c\<in>set (map (nth ?enc) (take ?t ?p)). c < ?k"
    using in_enc fit_transform_less by (auto dest: in_set_takeD)
  from to_categorical_ok [OF this] obtain yv where
    yv: "to_categorical (map (nth ?enc) (take ?t ?p)) ?k = Inr yv" by blast
  have r: "get_model_input permutation data labels
      = Inr (map (nth data) (drop ?t ?p), map (nth data) (take ?t ?p), yt, yv,
             \<lparr>rotation_range = 30, width_shift_range = 1 / 10,
              height_shift_range = 1 / 10, shear_range = 2 / 10,
              zoom_range = 2 / 10, horizontal_flip = True,
              fill_mode = ''nearest''\<rparr>)"
    by (simp only: get_model_input_def Let_def split sum.case prod.case yt yv)
  have lyt: "length yt = length (drop ?t ?p)" using to_categorical_length [OF yt] by simp
  have lyv: "length yv = length (take ?t ?p)" using to_categorical_length [OF yv] by simp
  have t: "?t < ?n" "?n \<le> 4 * ?t" "4 * ?t < ?n + 4" using True by presburger+
  show ?thesis
    unfolding r using t lp lyt lyv by auto
next
  case False
  then have "length data < 2" by simp
  from train_test_split_small [OF this, of permutation "fit_transform labels"]
  obtain e where "train_test_split permutation data (fit_transform labels) (25 / 100) 42 = Inl e"
    by blast
  then have "get_model_input permutation data labels = Inl e"
    by (simp add: get_model_input_def Let_def)
  with False show ?thesis by simp
qed

lemma mset_rotate_eq: "mset (rotate k xs) = mset xs"
proof -
  have "mset (drop j xs @ take j xs) = mset (take j xs @ drop j xs)" for j
    by (simp only: mset_append add.commute)
  then show ?thesis by (simp only: rotate_drop_take append_take_drop_id)
qed

lemma rotation_permutation_mset: "mset (rotation_permutation s n) = mset [0..<n]"
  unfolding rotation_permutation_def by (rule mset_rotate_eq)

lemma sample_split:
  "get_model_input rotation_permutation sample_data sample_labels
     = Inr ([[[[4 / 255]]], [[[0]]], [[[1 / 255]]]], [[[[2 / 255]]], [[[3 / 255]]]],
            [[0, 1, 0], [1, 0, 0], [0, 1, 0]], [[1, 0, 0], [0, 0, 1]],
            \<lparr>rotation_range = 30, width_shift_range = 1 / 10,
             height_shift_range = 1 / 10, shear_range = 2 / 10,
             zoom_range = 2 / 10, horizontal_flip = True,
             fill_mode = ''nearest''\<rparr>)"
  by code_simp

text \<open>The theorem applied to five samples of three classes.\<close>

theorem get_model_input_split_witness:
  "length sample_labels = length sample_data \<and>
   mset (rotation_permutation 42 (length sample_data)) = mset [0..<length sample_data] \<and>
   2 \<le> length sample_data \<and>
   get_model_input rotation_permutation sample_data sample_labels
     = Inr ([[[[4 / 255]]], [[[0]]], [[[1 / 255]]]], [[[[2 / 255]]], [[[3 / 255]]]],
            [[0, 1, 0], [1, 0, 0], [0, 1, 0]], [[1, 0, 0], [0, 0, 1]],
            \<lparr>rotation_range = 30, width_shift_range = 1 / 10,
             height_shift_range = 1 / 10, shear_range = 2 / 10,
             zoom_range = 2 / 10, horizontal_flip = True,
             fill_mode = ''nearest''\<rparr>) \<and>
   length [[[[4 / 255]]], [[[0]]], [[[1 / 255 :: rat]]]] + length [[[[2 / 255]]], [[[3 / 255 :: rat]]]]
     = length sample_data \<and>
   length sample_data \<le> 4 * length [[[[2 / 255]]], [[[3 / 255 :: rat]]]] \<and>
   4 * length [[[[2 / 255]]], [[[3 / 255 :: rat]]]] < length sample_data + 4 \<and>
   [[[[2 / 255]]], [[[3 / 255]]]]
     = map (nth sample_data)
         (take ((length sample_data + 3) div 4) (rotation_permutation 42 (length sample_data))) \<and>
   [[[[4 / 255]]], [[[0]]], [[[1 / 255]]]]
     = map (nth sample_data)
         (drop ((length sample_data + 3) div 4) (rotation_permutation 42 (length sample_data)))"
proof -
  have h1: "length sample_labels = length sample_data"
    by (simp add: sample_labels_def sample_data_def)
  have h2: "mset (rotation_permutation 42 (length sample_data)) = mset [0..<length sample_data]"
    by (rule rotation_permutation_mset)
  have h3: "2 \<le> length sample_data" by (simp add: sample_data_def)
  from get_model_input_split [where permutation = rotation_permutation and data = sample_data
      and labels = sample_labels] h1 h2 sample_split
  have "length [[[[4 / 255]]], [[[0]]], [[[1 / 255 :: rat]]]] + length [[[[2 / 255]]], [[[3 / 255 :: rat]]]]
     = length sample_data \<and>
   length sample_data \<le> 4 * length [[[[2 / 255]]], [[[3 / 255 :: rat]]]] \<and>
   4 * length [[[[2 / 255]]], [[[3 / 255 :: rat]]]] < length sample_data + 4 \<and>
   [[[[2 / 255]]], [[[3 / 255]]]]
     = map (nth sample_data)
         (take ((length sample_data + 3) div 4) (rotation_permutation 42 (length sample_data))) \<and>
   [[[[4 / 255]]], [[[0]]], [[[1 / 255]]]]
     = map (nth sample_data)
         (drop ((length sample_data + 3) div 4) (rotation_permutation 42 (length sample_data)))"
    by blast
  with h1 h2 h3 sample_split show ?thesis by blast
qed

section \<open>Properties of the training loop\<close>
















section \<open>Variation of the pixel values\<close>

lemma mirror_less: "0 < n \<Longrightarrow> mirror k n < n"
  by (auto simp: mirror_def Let_def nat_less_iff)

lemma mirror_parity:
  assumes "1 < n"
  shows "even (mirror k n) \<longleftrightarrow> even k"
proof -
  define p where "p = 2 * (int n - 1)"
  define m where "m = k mod p"
  have pp: "0 < p" using assms by (simp add: p_def)
  have ep: "even p" by (simp add: p_def)
  have em: "even m \<longleftrightarrow> even k" unfolding m_def using ep by (metis dvd_mod_iff)
  have nn: "0 \<le> m" "m < p" using pp by (simp_all add: m_def)
  have mir: "mirror k n = nat (if m < int n then m else p - m)"
    using assms by (simp add: mirror_def Let_def p_def m_def)
  show ?thesis
  proof (cases "m < int n")
    case True
    with mir nn em show ?thesis by (simp add: even_nat_iff)
  next
    case False
    have "even (p - m) \<longleftrightarrow> even m" using ep by simp
    moreover have "0 \<le> p - m" using nn by simp
    ultimately show ?thesis using mir False em by (simp add: even_nat_iff)
  qed
qed

lemma mirror_id: "k < n \<Longrightarrow> mirror (int k) n = k"
  by (auto simp: mirror_def Let_def)

lemma checkerboard_float_nth:
  assumes "y < n" "x < n" "c < 3"
  shows "img_as_float (checkerboard n) ! y ! x ! c = (if even (y + x) then 0 else 1)"
  using assms by (simp add: img_as_float_def checkerboard_def map_image_def)

lemma length_checkerboard_float: "length (img_as_float (checkerboard n)) = n"
  by (simp add: img_as_float_def checkerboard_def map_image_def)

lemma length_hd_checkerboard_float: "0 < n \<Longrightarrow> length (hd (img_as_float (checkerboard n))) = n"
  by (simp add: img_as_float_def checkerboard_def map_image_def hd_map upt_conv_Cons)

lemma shape_checkerboard: "0 < n \<Longrightarrow> shape (checkerboard n) = (n, n, 3)"
  by (simp add: checkerboard_def shape_def upt_conv_Cons)

lemma upto_m2_2: "[- 2..2 :: int] = [- 2, - 1, 0, 1, 2]"
  by (simp add: upto.simps)

lemma sigma_56_28: "anti_aliasing_sigma 56 28 = 1 / 2"
  by (simp add: anti_aliasing_sigma_def)

lemma radius_half: "kernel_radius (1 / 2) = 2"
  by (simp add: kernel_radius_def floor_eq_iff)

lemma checkerboard_mirror_nth:
  assumes "c < 3"
  shows "img_as_float (checkerboard 56) ! mirror k 56 ! mirror l 56 ! c
           = (if even (k + l) then 0 else 1)"
proof -
  have "mirror k 56 < 56" "mirror l 56 < 56" by (simp_all add: mirror_less)
  then have "img_as_float (checkerboard 56) ! mirror k 56 ! mirror l 56 ! c
      = (if even (mirror k 56 + mirror l 56) then 0 else 1)"
    using assms by (rule checkerboard_float_nth)
  moreover have "even (mirror k 56 + mirror l 56) \<longleftrightarrow> even (k + l)"
    by (simp add: mirror_parity)
  ultimately show ?thesis by simp
qed

lemma gaussian_filtered_checkerboard:
  assumes "c < 3"
  shows "gaussian_filtered g (img_as_float (checkerboard 56)) (28, 28) y x c
           = (if even (y + x)
              then 2 * (g (1 / 2) 0 + 2 * g (1 / 2) 2) * (2 * g (1 / 2) 1)
              else (g (1 / 2) 0 + 2 * g (1 / 2) 2) * (g (1 / 2) 0 + 2 * g (1 / 2) 2)
                 + (2 * g (1 / 2) 1) * (2 * g (1 / 2) 1))"
proof -
  have par: "even (int y + a + (int x + b)) \<longleftrightarrow> (even (y + x) \<longleftrightarrow> even (a + b))" for a b
    by auto
  have look: "img_as_float (checkerboard 56) ! mirror (int y + a) 56 ! mirror (int x + b) 56 ! c
      = (if (even (y + x) \<longleftrightarrow> even (a + b)) then 0 else 1)" for a b
    using checkerboard_mirror_nth [OF assms, of "int y + a" "int x + b"] par [of a b] by simp
  have lh: "length (hd (img_as_float (checkerboard 56))) = 56"
    by (simp add: length_hd_checkerboard_float)
  have "gaussian_filtered g (img_as_float (checkerboard 56)) (28, 28) y x c
      = sum_list (map (\<lambda>b. tap g (1 / 2) b *
           sum_list (map (\<lambda>a. tap g (1 / 2) a *
                (if (even (y + x) \<longleftrightarrow> even (a + b)) then 0 else 1)) [- 2..2])) [- 2..2])"
    by (simp only: gaussian_filtered_def Let_def length_checkerboard_float lh fst_conv snd_conv
        sigma_56_28 radius_half look)
  also have "\<dots> = (if even (y + x)
              then 2 * (g (1 / 2) 0 + 2 * g (1 / 2) 2) * (2 * g (1 / 2) 1)
              else (g (1 / 2) 0 + 2 * g (1 / 2) 2) * (g (1 / 2) 0 + 2 * g (1 / 2) 2)
                 + (2 * g (1 / 2) 1) * (2 * g (1 / 2) 1))"
    unfolding upto_m2_2 by (cases "even (y + x)") (simp_all add: tap_def algebra_simps)
  finally show ?thesis .
qed

lemma half_pixel_coordinate:
  "(of_nat i + 1 / 2) * of_nat 56 / of_nat 28 - 1 / 2 = (2 * of_nat i + 1 / 2 :: rat)"
  by (simp add: field_simps)

lemma half_pixel_floor: "\<lfloor>(of_nat i + 1 / 2) * of_nat 56 / of_nat 28 - 1 / 2 :: rat\<rfloor> = 2 * int i"
  unfolding half_pixel_coordinate
proof (rule floor_unique)
  show "of_int (2 * int i) \<le> (2 * of_nat i + 1 / 2 :: rat)" by simp
  show "(2 * of_nat i + 1 / 2 :: rat) < of_int (2 * int i) + 1" by simp
qed

lemma half_pixel_frac:
  "(of_nat i + 1 / 2) * of_nat 56 / of_nat 28 - 1 / 2 - of_int (2 * int i) = (1 / 2 :: rat)"
  unfolding half_pixel_coordinate by simp

lemma antialiased_linear_checkerboard:
  assumes "i < 28" "j < 28" "c < 3"
  shows "antialiased_linear g (img_as_float (checkerboard 56)) (28, 28) i j c
           = (g (1 / 2) 0 + 2 * g (1 / 2) 1 + 2 * g (1 / 2) 2)
             * (g (1 / 2) 0 + 2 * g (1 / 2) 1 + 2 * g (1 / 2) 2) / 2"
proof -
  let ?f = "img_as_float (checkerboard 56)"
  have lh: "length (hd ?f) = 56" by (simp add: length_hd_checkerboard_float)
  have b: "2 * i < 56" "2 * i + 1 < 56" "2 * j < 56" "2 * j + 1 < 56" using assms by simp_all
  have m: "mirror (2 * int i) 56 = 2 * i" "mirror (2 * int i + 1) 56 = 2 * i + 1"
    "mirror (2 * int j) 56 = 2 * j" "mirror (2 * int j + 1) 56 = 2 * j + 1"
    using mirror_id [OF b(1)] mirror_id [OF b(2)] mirror_id [OF b(3)] mirror_id [OF b(4)]
    by (simp_all only: of_nat_add of_nat_mult of_nat_numeral of_nat_1)
  have "antialiased_linear g ?f (28, 28) i j c
      = (1 - 1 / 2) * ((1 - 1 / 2) * gaussian_filtered g ?f (28, 28) (2 * i) (2 * j) c
                        + 1 / 2 * gaussian_filtered g ?f (28, 28) (2 * i) (2 * j + 1) c)
        + 1 / 2 * ((1 - 1 / 2) * gaussian_filtered g ?f (28, 28) (2 * i + 1) (2 * j) c
                        + 1 / 2 * gaussian_filtered g ?f (28, 28) (2 * i + 1) (2 * j + 1) c)"
    by (simp only: antialiased_linear_def Let_def length_checkerboard_float lh fst_conv snd_conv
        half_pixel_floor half_pixel_frac m)
  also have "\<dots> = (g (1 / 2) 0 + 2 * g (1 / 2) 1 + 2 * g (1 / 2) 2)
             * (g (1 / 2) 0 + 2 * g (1 / 2) 1 + 2 * g (1 / 2) 2) / 2"
    by (simp add: gaussian_filtered_checkerboard [OF assms(3)] algebra_simps)
  finally show ?thesis .
qed

lemma resize_form:
  assumes "shape img = (h, w, ch)" "0 < h" "0 < w" "0 < ch"
  shows "\<exists>lo hi. resize interp img (oh, ow)
           = Inr (map (\<lambda>i. map (\<lambda>j. map (\<lambda>c.
                    min hi (max lo (interp (img_as_float img) (oh, ow) i j c)))
                  [0..<ch]) [0..<ow]) [0..<oh])"
proof -
  from assms obtain rs ps v0 vs where img: "img = ((v0 # vs) # ps) # rs"
    by (auto simp: shape_def split: list.splits) (metis list.exhaust)
  then have "flat (img_as_float img) \<noteq> []"
    by (simp add: flat_def img_as_float_def map_image_def)
  then obtain x xs where fl: "flat (img_as_float img) = x # xs"
    by (cases "flat (img_as_float img)") auto
  from assms(1) have c: "snd (snd (shape img)) = ch" by simp
  show ?thesis by (auto simp: resize_def Let_def fl c)
qed

lemma preprocess_checkerboard_constant:
  "\<exists>v. preprocess_image (antialiased_linear g) (checkerboard 56)
         = Inr (replicate 28 (replicate 28 (replicate 3 v)))"
proof -
  let ?f = "img_as_float (checkerboard 56)"
  let ?V = "(g (1 / 2) 0 + 2 * g (1 / 2) 1 + 2 * g (1 / 2) 2)
             * (g (1 / 2) 0 + 2 * g (1 / 2) 1 + 2 * g (1 / 2) 2) / 2"
  have sh: "shape (checkerboard 56) = (56, 56, 3)" by (simp add: shape_checkerboard)
  from resize_form [OF sh, of "antialiased_linear g" 28 28] obtain lo hi where
    r: "resize (antialiased_linear g) (checkerboard 56) (28, 28)
          = Inr (map (\<lambda>i. map (\<lambda>j. map (\<lambda>c.
                    min hi (max lo (antialiased_linear g ?f (28, 28) i j c)))
                  [0..<3]) [0..<28]) [0..<28])"
    by auto
  have "map (\<lambda>i. map (\<lambda>j. map (\<lambda>c.
                    min hi (max lo (antialiased_linear g ?f (28, 28) i j c)))
                  [0..<3]) [0..<28]) [0..<28]
      = replicate 28 (replicate 28 (replicate 3 (min hi (max lo ?V))))"
  proof (rule map_upt_const)
    fix i :: nat assume i: "i < 28"
    show "map (\<lambda>j. map (\<lambda>c. min hi (max lo (antialiased_linear g ?f (28, 28) i j c))) [0..<3])
            [0..<28] = replicate 28 (replicate 3 (min hi (max lo ?V)))"
    proof (rule map_upt_const)
      fix j :: nat assume j: "j < 28"
      show "map (\<lambda>c. min hi (max lo (antialiased_linear g ?f (28, 28) i j c))) [0..<3]
              = replicate 3 (min hi (max lo ?V))"
      proof (rule map_upt_const)
        fix c :: nat assume "c < 3"
        from antialiased_linear_checkerboard [OF i j this]
        show "min hi (max lo (antialiased_linear g ?f (28, 28) i j c)) = min hi (max lo ?V)"
          by (simp only:)
      qed
    qed
  qed
  with r have "preprocess_image (antialiased_linear g) (checkerboard 56)
      = Inr (replicate 28 (replicate 28 (replicate 3 (min hi (max lo ?V) / 255))))"
    by (simp add: preprocess_image_def map_image_def)
  then show ?thesis by blast
qed

lemma in_flat:
  "y < length a \<Longrightarrow> x < length (a ! y) \<Longrightarrow> c < length (a ! y ! x) \<Longrightarrow> a ! y ! x ! c \<in> set (flat a)"
  unfolding flat_def by (auto simp: set_concat) (metis nth_mem)

lemma amax_eqI:
  assumes "v \<in> set (flat a)" and "\<forall>u\<in>set (flat a). u \<le> v"
  shows "amax a = Inr v"
proof -
  from assms(1) obtain x xs where fl: "flat a = x # xs" by (cases "flat a") auto
  have "fold max xs x = Max (set (x # xs))" by (simp only: Max.set_eq_fold)
  also have "\<dots> = v" using assms fl by (intro Max_eqI) auto
  finally show ?thesis by (simp add: amax_def fl)
qed

lemma amin_eqI:
  assumes "v \<in> set (flat a)" and "\<forall>u\<in>set (flat a). v \<le> u"
  shows "amin a = Inr v"
proof -
  from assms(1) obtain x xs where fl: "flat a = x # xs" by (cases "flat a") auto
  have "fold min xs x = Min (set (x # xs))" by (simp only: Min.set_eq_fold)
  also have "\<dots> = v" using assms fl by (intro Min_eqI) auto
  finally show ?thesis by (simp add: amin_def fl)
qed

lemma checkerboard_extremes: "amin (checkerboard 56) = Inr 0 \<and> amax (checkerboard 56) = Inr 255"
proof
  have n: "checkerboard 56 ! 0 ! 0 ! 0 = 0" "checkerboard 56 ! 0 ! 1 ! 0 = 255"
    by (simp_all add: checkerboard_def)
  have l: "0 < length (checkerboard 56)" "0 < length (checkerboard 56 ! 0)"
    "1 < length (checkerboard 56 ! 0)" "0 < length (checkerboard 56 ! 0 ! 0)"
    "0 < length (checkerboard 56 ! 0 ! 1)"
    by (simp_all add: checkerboard_def)
  have "checkerboard 56 ! 0 ! 0 ! 0 \<in> set (flat (checkerboard 56))"
    by (rule in_flat [OF l(1) l(2) l(4)])
  then have z: "0 \<in> set (flat (checkerboard 56))" by (simp only: n)
  have "checkerboard 56 ! 0 ! 1 ! 0 \<in> set (flat (checkerboard 56))"
    by (rule in_flat [OF l(1) l(3) l(5)])
  then have w: "255 \<in> set (flat (checkerboard 56))" by (simp only: n)
  show "amin (checkerboard 56) = Inr 0" by (rule amin_eqI [OF z]) simp
  have "u \<le> 255" for u :: "8 word"
  proof -
    have "(255 :: 8 word) = - 1" by simp
    then show ?thesis by (simp only: word_n1_ge)
  qed
  then show "amax (checkerboard 56) = Inr 255" by (intro amax_eqI [OF w]) simp
qed

lemma constant_image_extremes:
  assumes "0 < a" "0 < b" "0 < c"
  shows "amin (replicate a (replicate b (replicate c v))) = Inr v \<and>
         amax (replicate a (replicate b (replicate c v))) = Inr v"
proof -
  have s: "set (flat (replicate a (replicate b (replicate c v)))) = {v}"
    using assms by (auto simp: flat_def)
  show ?thesis using s by (auto intro!: amin_eqI amax_eqI)
qed

lemma flat_map_image: "flat (map_image f a) = map f (flat a)"
  by (simp add: flat_def map_image_def map_concat)

lemma fold_min_divide:
  "fold min (map (\<lambda>v. v / 255) xs) (x / 255) = fold min xs x / (255 :: rat)"
proof (induction xs arbitrary: x)
  case Nil
  then show ?case by simp
next
  case (Cons y ys)
  have "min (y / 255) (x / 255) = min y x / (255 :: rat)" by (simp add: min_def divide_le_cancel)
  with Cons.IH [of "min y x"] show ?case by simp
qed

lemma fold_max_divide:
  "fold max (map (\<lambda>v. v / 255) xs) (x / 255) = fold max xs x / (255 :: rat)"
proof (induction xs arbitrary: x)
  case Nil
  then show ?case by simp
next
  case (Cons y ys)
  have "max (y / 255) (x / 255) = max y x / (255 :: rat)" by (simp add: max_def divide_le_cancel)
  with Cons.IH [of "max y x"] show ?case by simp
qed

text \<open>
  Claim C4, amended. For every image with at least one pixel, the minimum and the maximum
  of the output of \<open>preprocess_image\<close> are the minimum and the maximum of the resized
  tensor divided by 255; so the output satisfies \<open>max > min\<close> exactly when the tensor
  that the resize call returns does. The division by 255 never flattens an image; whether
  a non-constant image stays non-constant is decided by the resize call alone.
\<close>

theorem preprocess_image_keeps_variation:
  assumes "shape img = (h, w, ch)" and "0 < h" and "0 < w" and "0 < ch"
  shows "\<exists>r out lo hi.
           resize interp img (28, 28) = Inr r \<and> preprocess_image interp img = Inr out \<and>
           amin r = Inr lo \<and> amax r = Inr hi \<and>
           amin out = Inr (lo / 255) \<and> amax out = Inr (hi / 255) \<and>
           (lo / 255 < hi / 255 \<longleftrightarrow> lo < hi)"
proof -
  from resize_shape [OF assms, of interp 28 28] obtain r where
    r: "resize interp img (28, 28) = Inr r" and l: "length r = 28"
    and rows: "\<forall>row\<in>set r. length row = 28 \<and> (\<forall>px\<in>set row. length px = ch)"
    by blast
  from l obtain r0 rs where r0: "r = r0 # rs" by (cases r) auto
  with rows have "length r0 = 28" by simp
  then obtain p0 ps where p0: "r0 = p0 # ps" by (cases r0) auto
  with rows r0 have "length p0 = ch" by simp
  with assms(4) obtain v0 vs where v0: "p0 = v0 # vs" by (cases p0) auto
  from r0 p0 v0 obtain x xs where fl: "flat r = x # xs" by (simp add: flat_def)
  let ?out = "map_image (\<lambda>v. v / 255) r"
  have out: "preprocess_image interp img = Inr ?out" by (simp add: preprocess_image_def r)
  have flo: "flat ?out = (x / 255) # map (\<lambda>v. v / 255) xs" by (simp add: flat_map_image fl)
  have a: "amin r = Inr (fold min xs x)" "amax r = Inr (fold max xs x)"
    by (simp_all add: amin_def amax_def fl)
  have b: "amin ?out = Inr (fold min xs x / 255)" "amax ?out = Inr (fold max xs x / 255)"
    by (simp_all add: amin_def amax_def flo fold_min_divide fold_max_divide)
  have c: "fold min xs x / 255 < fold max xs x / 255 \<longleftrightarrow> fold min xs x < fold max xs x"
    by (simp add: divide_less_cancel)
  from r out a b c show ?thesis by blast
qed

text \<open>The theorem applied to a 2 by 3 image and nearest-neighbour sampling.\<close>

theorem preprocess_image_keeps_variation_witness:
  "shape test_image = (2, 3, 3) \<and>
   (\<exists>r out lo hi.
      resize nearest test_image (28, 28) = Inr r \<and>
      preprocess_image nearest test_image = Inr out \<and>
      amin r = Inr lo \<and> amax r = Inr hi \<and>
      amin out = Inr (lo / 255) \<and> amax out = Inr (hi / 255) \<and>
      (lo / 255 < hi / 255 \<longleftrightarrow> lo < hi))"
proof -
  have s: "shape test_image = (2, 3, 3)" by (simp add: shape_def test_image_def)
  from preprocess_image_keeps_variation [OF s, of nearest] s show ?thesis by simp
qed

text \<open>
  Claim C4 as stated (a non-constant input never gives a constant output) fails on a
  56 by 56 checkerboard of one-pixel squares, whose values are 0 and 255. Halving the size
  filters with standard deviation 1/2 (five taps, mirrored at the border), which leaves a
  checkerboard of two values, and then interpolates half way between four neighbouring
  pixels, two of each value: every output value is the same, whatever the taps are.
\<close>

theorem preprocess_image_flattens_checkerboard:
  "amin (checkerboard 56) = Inr 0 \<and> amax (checkerboard 56) = Inr 255 \<and>
   (\<forall>g. \<exists>v. preprocess_image (antialiased_linear g) (checkerboard 56)
              = Inr (replicate 28 (replicate 28 (replicate 3 v))) \<and>
            amin (replicate 28 (replicate 28 (replicate 3 v))) = Inr v \<and>
            amax (replicate 28 (replicate 28 (replicate 3 v))) = Inr v)"
proof -
  have "\<exists>v. preprocess_image (antialiased_linear g) (checkerboard 56)
              = Inr (replicate 28 (replicate 28 (replicate 3 v))) \<and>
            amin (replicate 28 (replicate 28 (replicate 3 v))) = Inr v \<and>
            amax (replicate 28 (replicate 28 (replicate 3 v))) = Inr v" for g
  proof -
    from preprocess_checkerboard_constant [of g] obtain v where
      "preprocess_image (antialiased_linear g) (checkerboard 56)
         = Inr (replicate 28 (replicate 28 (replicate 3 v)))" by blast
    moreover have "amin (replicate 28 (replicate 28 (replicate 3 v))) = Inr v \<and>
         amax (replicate 28 (replicate 28 (replicate 3 v))) = Inr v"
      by (rule constant_image_extremes) simp_all
    ultimately show ?thesis by blast
  qed
  with checkerboard_extremes show ?thesis by blast
qed

end
